theory Spec2Isabelle
  imports Complex_Main "HOL-Library.Sublist" "HOL-Library.Product_Lexorder"
begin

section \<open>Python strings\<close>

text \<open>
  A Python \<open>str\<close> is modelled as a \<open>string\<close>, each \<open>char\<close> standing for the code point
  of the same number (0 to 255).  \<open>is_space\<close> is \<open>str.isspace\<close> on these code points, the
  set of characters that \<open>str.strip()\<close> removes: TAB, LF, VT, FF, CR, FS, GS, RS, US,
  SPACE, NEL and NBSP.
\<close>

definition is_space :: "char \<Rightarrow> bool" where
  "is_space c = (of_char c \<in> {9, 10, 11, 12, 13, 28, 29, 30, 31, 32, 133, 160 :: nat})"

definition strip :: "string \<Rightarrow> string" where
  "strip s = dropWhile is_space (rev (dropWhile is_space (rev s)))"

definition startswith :: "string \<Rightarrow> string \<Rightarrow> bool" where
  "startswith p s = (take (length p) s = p)"

definition nl :: char where
  "nl = CHR 0x0A"

definition fence :: string where
  "fence = ''```''"

text \<open>\<open>text.split("\n")\<close>: the pieces between line feeds; never the empty list.\<close>

fun split_nl :: "string \<Rightarrow> string list" where
  "split_nl [] = [[]]"
| "split_nl (c # cs) =
     (if c = nl then [] # split_nl cs
      else (case split_nl cs of l # ls \<Rightarrow> (c # l) # ls | [] \<Rightarrow> [[c]]))"

text \<open>\<open>"\n".join(lines)\<close>.\<close>

fun join_nl :: "string list \<Rightarrow> string" where
  "join_nl [] = []"
| "join_nl [l] = l"
| "join_nl (l # l' # ls) = l @ nl # join_nl (l' # ls)"

text \<open>\<open>str.find\<close> and \<open>str.rfind\<close> for a single character: the index, or \<open>-1\<close>.\<close>

fun find_chr :: "char \<Rightarrow> string \<Rightarrow> int" where
  "find_chr c [] = -1"
| "find_chr c (x # xs) =
     (if x = c then 0 else (let i = find_chr c xs in if i = -1 then -1 else i + 1))"

definition rfind_chr :: "char \<Rightarrow> string \<Rightarrow> int" where
  "rfind_chr c s = (let i = find_chr c (rev s) in if i = -1 then -1 else int (length s) - 1 - i)"

text \<open>\<open>s[a:b]\<close> for indices that are not negative.\<close>

definition slice :: "string \<Rightarrow> int \<Rightarrow> int \<Rightarrow> string" where
  "slice s a b = drop (nat a) (take (nat b) s)"

section \<open>The structured-text extractor (\<open>agent/topic_agent.py\<close>)\<close>

text \<open>
  The fence removal of \<open>_extract_json\<close>, for a text that starts with the fence marker.
  \<open>lines[0]\<close> cannot fail, \<open>split\<close> returning at least one piece.
\<close>

definition strip_fences :: "string \<Rightarrow> string" where
  "strip_fences text =
     (let lines = split_nl text;
          lines = (case lines of
                     l0 # rest \<Rightarrow> if startswith fence l0 then rest else lines
                   | [] \<Rightarrow> lines);
          lines = (if lines \<noteq> [] \<and> strip (last lines) = fence then butlast lines else lines)
      in join_nl lines)"

text \<open>The search for the first \<open>[\<close> and the last \<open>]\<close>.\<close>

definition select_brackets :: "string \<Rightarrow> string" where
  "select_brackets text =
     (let start = find_chr CHR ''['' text;
          end = rfind_chr CHR '']'' text
      in if start \<noteq> -1 \<and> end \<noteq> -1 \<and> end > start then slice text start (end + 1)
         else text)"

definition extract_json :: "string \<Rightarrow> string" where
  "extract_json text =
     (let text = strip text;
          text = (if startswith fence text then strip_fences text else text)
      in select_brackets text)"

section \<open>Exceptions\<close>

text \<open>
  The exceptions that the modelled code raises or lets through, by class.  A function
  that can raise returns \<open>error + 'a\<close>, \<open>Inl\<close> carrying the exception.
\<close>

datatype error =
    ValueError
  | IndexError
  | AttributeError
  | TypeError
  | JSONDecodeError
  | ZeroDivisionError
  | OverflowError
  | RecursionError
  | MemoryError
  | ReError
  | YAMLError
  | OSError
  | LLMError
  | EmbeddingError
  | KnowledgeBaseError
  | KeyboardInterrupt
  | SystemExit


section \<open>Skill records (\<open>skills/loader.py\<close>)\<close>

text \<open>
  The dataclasses of the loader.  A dataclass does not check the declared type of a
  field, so the records are polymorphic in the types of the values stored: \<open>'s\<close> where
  \<open>str\<close> is declared, \<open>'l\<close> where \<open>list[str]\<close> is declared and \<open>'n\<close> where \<open>float\<close> is
  declared.  The matcher reads the fields at their declared types; the loader stores the
  YAML value it finds.
\<close>

record ('l, 'n) SkillTrigger =
  domains :: 'l
  trigger_keywords :: 'l
  intent_patterns :: 'l
  threshold :: 'n

record ('s, 'l, 'n) SkillMetadata =
  name :: 's
  display_name :: 's
  version :: 's
  description :: 's
  trigger :: "('l, 'n) SkillTrigger"

record 's ThinkingStep =
  step_name :: 's
  prompt :: 's

record 's ThinkingFramework =
  framework_description :: 's
  steps :: "'s ThinkingStep list"

record 's SkillTool =
  tool_name :: 's
  tool_description :: 's
  output_format :: 's

record ('s, 'l) OutputRequirements =
  sections :: 'l
  style :: 's

record ('s, 'l, 'n) Skill =
  metadata :: "('s, 'l, 'n) SkillMetadata"
  thinking_framework :: "'s ThinkingFramework"
  tools :: "'s SkillTool list"
  output_requirements :: "('s, 'l) OutputRequirements"
  file_path :: string

section \<open>Floating-point numbers\<close>

text \<open>
  A Python \<open>float\<close> and a NumPy \<open>float64\<close> are IEEE 754 binary64 values: a finite value is
  the real number it stands for, and there are two infinities and \<open>nan\<close>.  The two zeros
  are one value here; they compare equal, and they differ only as divisors.
\<close>

datatype float64 = Finite real | PosInf | NegInf | NaN

text \<open>
  Every arithmetic operation gives the exact result rounded to the nearest value with 53
  significant bits, a tie going to the even one.  Below \<open>2 powi (- 1022)\<close> the spacing
  stays \<open>2 powi (- 1074)\<close> (gradual underflow), and a rounded magnitude of \<open>2 ^ 1024\<close> or
  more is an infinity.
\<close>

definition round_half_even :: "real \<Rightarrow> int" where
  "round_half_even x =
     (let f = \<lfloor>x\<rfloor>; d = x - of_int f
      in if d < 1 / 2 then f else if d > 1 / 2 then f + 1 else if even f then f else f + 1)"

definition exponent :: "real \<Rightarrow> int" where
  "exponent x = max \<lfloor>log 2 \<bar>x\<bar>\<rfloor> (- 1022)"

definition overflow_threshold :: real where
  "overflow_threshold = 2 ^ 1024"

definition round64 :: "real \<Rightarrow> float64" where
  "round64 x =
     (let u = 2 powi (exponent x - 52);
          y = of_int (round_half_even (x / u)) * u
      in if \<bar>y\<bar> \<ge> overflow_threshold then (if x > 0 then PosInf else NegInf)
         else Finite y)"

text \<open>The rounded value before the overflow test.\<close>

definition rounded :: "real \<Rightarrow> real" where
  "rounded x = of_int (round_half_even (x / 2 powi (exponent x - 52))) * 2 powi (exponent x - 52)"

text \<open>The comparisons \<open><=\<close>, \<open><\<close>, \<open>>=\<close>, \<open>>\<close> and \<open>==\<close>: false whenever a side is \<open>nan\<close>.\<close>

fun fle :: "float64 \<Rightarrow> float64 \<Rightarrow> bool" where
  "fle NaN b = False"
| "fle a NaN = False"
| "fle NegInf b = True"
| "fle a PosInf = True"
| "fle (Finite x) (Finite y) = (x \<le> y)"
| "fle a b = False"

fun flt :: "float64 \<Rightarrow> float64 \<Rightarrow> bool" where
  "flt NaN b = False"
| "flt a NaN = False"
| "flt PosInf b = False"
| "flt a NegInf = False"
| "flt (Finite x) (Finite y) = (x < y)"
| "flt a b = True"

definition fge :: "float64 \<Rightarrow> float64 \<Rightarrow> bool" where
  "fge a b = fle b a"

definition fgt :: "float64 \<Rightarrow> float64 \<Rightarrow> bool" where
  "fgt a b = flt b a"

definition feq :: "float64 \<Rightarrow> float64 \<Rightarrow> bool" where
  "feq a b = (a \<noteq> NaN \<and> a = b)"

text \<open>Addition, multiplication, division and square root.  Division is NumPy's: a zero
  divisor gives an infinity or \<open>nan\<close> and raises nothing.  A zero divisor is read as
  \<open>+0.0\<close>; the one division of the matcher is by a product of two norms, which is never
  \<open>-0.0\<close>.\<close>

fun fneg :: "float64 \<Rightarrow> float64" where
  "fneg (Finite x) = Finite (- x)"
| "fneg PosInf = NegInf"
| "fneg NegInf = PosInf"
| "fneg NaN = NaN"

fun fadd :: "float64 \<Rightarrow> float64 \<Rightarrow> float64" where
  "fadd (Finite x) (Finite y) = round64 (x + y)"
| "fadd NaN b = NaN"
| "fadd a NaN = NaN"
| "fadd PosInf NegInf = NaN"
| "fadd NegInf PosInf = NaN"
| "fadd PosInf b = PosInf"
| "fadd NegInf b = NegInf"
| "fadd a PosInf = PosInf"
| "fadd a NegInf = NegInf"

fun fmul :: "float64 \<Rightarrow> float64 \<Rightarrow> float64" where
  "fmul (Finite x) (Finite y) = round64 (x * y)"
| "fmul NaN b = NaN"
| "fmul a NaN = NaN"
| "fmul (Finite x) b = (if x = 0 then NaN else if x > 0 then b else fneg b)"
| "fmul a (Finite y) = (if y = 0 then NaN else if y > 0 then a else fneg a)"
| "fmul PosInf b = b"
| "fmul NegInf b = fneg b"

fun fdiv :: "float64 \<Rightarrow> float64 \<Rightarrow> float64" where
  "fdiv (Finite x) (Finite y) =
     (if y \<noteq> 0 then round64 (x / y)
      else if x = 0 then NaN else if x > 0 then PosInf else NegInf)"
| "fdiv NaN b = NaN"
| "fdiv a NaN = NaN"
| "fdiv (Finite x) b = Finite 0"
| "fdiv a (Finite y) = (if y \<ge> 0 then a else fneg a)"
| "fdiv a b = NaN"

fun fsqrt :: "float64 \<Rightarrow> float64" where
  "fsqrt (Finite x) = (if x < 0 then NaN else round64 (sqrt x))"
| "fsqrt PosInf = PosInf"
| "fsqrt a = NaN"

text \<open>\<open>m / n\<close> on two \<open>int\<close> lengths: the quotient, correctly rounded.  Every call has
  \<open>n > 0\<close>.\<close>

definition truediv :: "nat \<Rightarrow> nat \<Rightarrow> float64" where
  "truediv m n = round64 (real m / real n)"

text \<open>The float literals of the source: the binary64 values nearest to the decimals.\<close>

definition f0_5 :: float64 where "f0_5 = Finite (1 / 2)"
definition f0_4 :: float64 where "f0_4 = Finite (3602879701896397 / 2 ^ 53)"
definition f0_3 :: float64 where "f0_3 = Finite (5404319552844595 / 2 ^ 54)"
definition f0_2 :: float64 where "f0_2 = Finite (3602879701896397 / 2 ^ 54)"
definition f0_6 :: float64 where "f0_6 = Finite (5404319552844595 / 2 ^ 53)"

text \<open>Further values that the sample computations meet: 0.1, 0.15, 0.65 and 1.05 as
  binary64, the square root of 2 rounded, the value after 2 and the value two steps before
  1.\<close>

definition f0_1 :: float64 where "f0_1 = Finite (3602879701896397 / 2 ^ 55)"
definition f0_15 :: float64 where "f0_15 = Finite (5404319552844595 / 2 ^ 55)"
definition f0_65 :: float64 where "f0_65 = Finite (5854679515581645 / 2 ^ 53)"
definition f0_9 :: float64 where "f0_9 = Finite (8106479329266893 / 2 ^ 53)"
definition f1_05 :: float64 where "f1_05 = Finite (4728779608739021 / 2 ^ 52)"

section \<open>The skill matcher (\<open>skills/matcher.py\<close>)\<close>

type_synonym typed_skill = "(string, string list, float64) Skill"

record SkillMatch =
  skill :: typed_skill
  score :: float64
  matched_domains :: "string list"
  matched_keywords :: "string list"

text \<open>
  NumPy adds up the products of a dot product in an order, and with fused steps, that the
  source does not fix, so the reduction is a parameter \<open>dotf\<close>: the value of \<open>x.dot(y)\<close>
  on two vectors of the same length.  \<open>np.dot\<close> raises \<open>ValueError\<close> when the lengths
  differ, and \<open>np.linalg.norm\<close> of a vector is \<open>sqrt(x.dot(x))\<close>.
\<close>

type_synonym dot_fn = "float64 list \<Rightarrow> float64 list \<Rightarrow> float64"

definition np_dot :: "dot_fn \<Rightarrow> float64 list \<Rightarrow> float64 list \<Rightarrow> error + float64" where
  "np_dot dotf a b = (if length a \<noteq> length b then Inl ValueError else Inr (dotf a b))"

definition linalg_norm :: "dot_fn \<Rightarrow> float64 list \<Rightarrow> float64" where
  "linalg_norm dotf a = fsqrt (dotf a a)"

definition cosine_similarity :: "dot_fn \<Rightarrow> float64 list \<Rightarrow> float64 list \<Rightarrow> error + float64" where
  "cosine_similarity dotf a b =
     (let norm_a = linalg_norm dotf a;
          norm_b = linalg_norm dotf b
      in if feq norm_a (Finite 0) \<or> feq norm_b (Finite 0) then Inr (Finite 0)
         else (case np_dot dotf a b of
                 Inl e \<Rightarrow> Inl e
               | Inr d \<Rightarrow> Inr (fdiv d (fmul norm_a norm_b))))"

text \<open>The reduction that adds the products from left to right, rounding each step.\<close>

definition dot_seq :: dot_fn where
  "dot_seq a b = foldl fadd (Finite 0) (map2 fmul a b)"

text \<open>\<open>str.lower()\<close> on the code points below 256: the ASCII capitals and the Latin-1
  capitals (all of \<open>0xC0\<close> to \<open>0xDE\<close> but the multiplication sign) move up by 32.\<close>

definition lower_char :: "char \<Rightarrow> char" where
  "lower_char c =
     (let n = (of_char c :: nat)
      in if (65 \<le> n \<and> n \<le> 90) \<or> (192 \<le> n \<and> n \<le> 222 \<and> n \<noteq> 215)
         then char_of (n + 32) else c)"

definition lower :: "string \<Rightarrow> string" where
  "lower s = map lower_char s"

text \<open>
  The two services the matcher calls are parameters:
  \<^item> \<open>embedder\<close>, the call \<open>self._embed\<close> behind its retry wrapper: the vectors, or the exception
    that the wrapper re-raises;
  \<^item> \<open>re_search\<close>, \<open>re.search(pattern, topic)\<close>: whether a match was found, or the exception
    raised, \<open>ReError\<close> standing for \<open>re.error\<close>.
\<close>

type_synonym embed_fn = "string list \<Rightarrow> error + float64 list list"
type_synonym re_search_fn = "string \<Rightarrow> string \<Rightarrow> error + bool"

text \<open>The loop over \<open>zip(trigger.domains, domain_embeddings)\<close>.\<close>

fun domain_loop ::
  "dot_fn \<Rightarrow> float64 list \<Rightarrow> (string \<times> float64 list) list \<Rightarrow> float64 \<Rightarrow> string list
     \<Rightarrow> error + float64 \<times> string list"
where
  "domain_loop dotf topic_embedding [] domain_sim m_domains = Inr (domain_sim, m_domains)"
| "domain_loop dotf topic_embedding ((domain, d_emb) # rest) domain_sim m_domains =
     (case cosine_similarity dotf topic_embedding d_emb of
        Inl e \<Rightarrow> Inl e
      | Inr sim \<Rightarrow>
          domain_loop dotf topic_embedding rest
            (if fgt sim domain_sim then sim else domain_sim)
            (if fgt sim f0_4 then m_domains @ [domain] else m_domains))"

text \<open>The loop over \<open>trigger.keywords\<close>; \<open>kw.lower() in topic_lower\<close> is the substring
  test.\<close>

fun keyword_loop :: "string \<Rightarrow> string list \<Rightarrow> string list \<Rightarrow> string list" where
  "keyword_loop topic_lower [] m_keywords = m_keywords"
| "keyword_loop topic_lower (kw # rest) m_keywords =
     keyword_loop topic_lower rest
       (if sublist (lower kw) topic_lower then m_keywords @ [kw] else m_keywords)"

text \<open>The loop over \<open>trigger.intent_patterns\<close>: \<open>except re.error\<close> passes over a pattern
  that raises \<open>re.error\<close>; any other exception of \<open>re.search\<close> leaves the loop.\<close>

fun intent_loop :: "re_search_fn \<Rightarrow> string \<Rightarrow> string list \<Rightarrow> nat \<Rightarrow> error + nat" where
  "intent_loop re_search topic [] matches = Inr matches"
| "intent_loop re_search topic (pattern # rest) matches =
     (case re_search pattern topic of
        Inr found \<Rightarrow> intent_loop re_search topic rest (if found then matches + 1 else matches)
      | Inl e \<Rightarrow>
          if e = ReError then intent_loop re_search topic rest matches else Inl e)"

definition compute_score ::
  "dot_fn \<Rightarrow> embed_fn \<Rightarrow> re_search_fn \<Rightarrow> string \<Rightarrow> float64 list \<Rightarrow> typed_skill
     \<Rightarrow> error + float64 \<times> string list \<times> string list"
where
  "compute_score dotf embedder re_search topic topic_embedding sk =
     (let trigger = trigger (metadata sk)
      in case (if domains trigger \<noteq> []
               then (case embedder (domains trigger) of
                       Inl e \<Rightarrow> Inl e
                     | Inr domain_embeddings \<Rightarrow>
                         domain_loop dotf topic_embedding
                           (zip (domains trigger) domain_embeddings) (Finite 0) [])
               else Inr (Finite 0, [])) of
           Inl e \<Rightarrow> Inl e
         | Inr (domain_sim, m_domains) \<Rightarrow>
             (let m_keywords =
                    (if trigger_keywords trigger \<noteq> []
                     then keyword_loop (lower topic) (trigger_keywords trigger) [] else []);
                  keyword_score =
                    (if trigger_keywords trigger \<noteq> []
                     then truediv (length m_keywords) (length (trigger_keywords trigger))
                     else Finite 0)
              in case (if intent_patterns trigger \<noteq> []
                       then (case intent_loop re_search topic (intent_patterns trigger) 0 of
                               Inl e \<Rightarrow> Inl e
                             | Inr matches \<Rightarrow>
                                 Inr (truediv matches (length (intent_patterns trigger))))
                       else Inr (Finite 0)) of
                   Inl e \<Rightarrow> Inl e
                 | Inr intent_score \<Rightarrow>
                     Inr (fadd (fadd (fmul f0_5 domain_sim) (fmul f0_3 keyword_score))
                               (fmul f0_2 intent_score),
                          m_domains, m_keywords)))"

text \<open>The loop of \<open>match\<close> over the skills.\<close>

fun match_loop ::
  "dot_fn \<Rightarrow> embed_fn \<Rightarrow> re_search_fn \<Rightarrow> string \<Rightarrow> float64 list \<Rightarrow> typed_skill list
     \<Rightarrow> SkillMatch list \<Rightarrow> error + SkillMatch list"
where
  "match_loop dotf embedder re_search topic topic_embedding [] matches = Inr matches"
| "match_loop dotf embedder re_search topic topic_embedding (sk # rest) matches =
     (case compute_score dotf embedder re_search topic topic_embedding sk of
        Inl e \<Rightarrow> Inl e
      | Inr (sc, md, mk) \<Rightarrow>
          match_loop dotf embedder re_search topic topic_embedding rest
            (if fge sc (threshold (trigger (metadata sk)))
             then matches @ [\<lparr>skill = sk, score = sc, matched_domains = md,
                               matched_keywords = mk\<rparr>]
             else matches))"

text \<open>
  \<open>matches.sort(key=lambda m: m.score, reverse=True)\<close>: a stable sort, descending, that
  orders the scores with \<open><\<close>.  Every score in \<open>matches\<close> has passed
  \<open>score >= threshold\<close>, so none is \<open>nan\<close> and \<open><\<close> is a linear order on them.
  \<open>desc_key\<close> reverses that order; it puts \<open>nan\<close>, which cannot occur, last.
\<close>

fun desc_key :: "float64 \<Rightarrow> int \<times> real" where
  "desc_key PosInf = (0, 0)"
| "desc_key (Finite x) = (1, - x)"
| "desc_key NegInf = (2, 0)"
| "desc_key NaN = (3, 0)"

definition sort_by_score_desc :: "SkillMatch list \<Rightarrow> SkillMatch list" where
  "sort_by_score_desc matches = sort_key (\<lambda>m. desc_key (score m)) matches"

text \<open>\<open>xs[:k]\<close>: a negative \<open>k\<close> counts from the end.\<close>

definition slice_to :: "'a list \<Rightarrow> int \<Rightarrow> 'a list" where
  "slice_to xs k = (if k \<ge> 0 then take (nat k) xs else take (nat (int (length xs) + k)) xs)"

definition match ::
  "dot_fn \<Rightarrow> embed_fn \<Rightarrow> re_search_fn \<Rightarrow> int \<Rightarrow> string \<Rightarrow> typed_skill list
     \<Rightarrow> error + SkillMatch list"
where
  "match dotf embedder re_search top_k topic skills =
     (if skills = [] then Inr []
      else (case embedder [topic] of
              Inl e \<Rightarrow> Inl e
            | Inr embeddings \<Rightarrow>
                (case embeddings of
                   [] \<Rightarrow> Inl IndexError
                 | topic_embedding # _ \<Rightarrow>
                     (case match_loop dotf embedder re_search topic topic_embedding skills [] of
                        Inl e \<Rightarrow> Inl e
                      | Inr matches \<Rightarrow> Inr (slice_to (sort_by_score_desc matches) top_k)))))"

text \<open>
  The two ratios as the specification words them: the share of the trigger keywords that
  occur in the topic as substrings, case ignored, and the share of the intent patterns
  that match the topic; 0 when there are none.  The division is the float division of
  the two counts.
\<close>

definition keyword_ratio :: "string \<Rightarrow> string list \<Rightarrow> float64" where
  "keyword_ratio topic kws =
     (if kws = [] then Finite 0
      else truediv (length (filter (\<lambda>kw. sublist (lower kw) (lower topic)) kws)) (length kws))"

definition intent_ratio :: "re_search_fn \<Rightarrow> string \<Rightarrow> string list \<Rightarrow> float64" where
  "intent_ratio re_search topic patterns =
     (if patterns = [] then Finite 0
      else truediv (length (filter (\<lambda>p. re_search p topic = Inr True) patterns))
             (length patterns))"


text \<open>\<open>domain_sim\<close> is the largest of 0 and the similarities: one of them, with none of
  the similarities above it.\<close>

definition is_domain_sim :: "float64 \<Rightarrow> float64 list \<Rightarrow> bool" where
  "is_domain_sim d sims \<longleftrightarrow>
     d \<in> set (Finite 0 # sims) \<and> fge d (Finite 0) \<and> list_all (\<lambda>s. \<not> fgt s d) sims"

text \<open>
  Sample inputs for the matcher.  \<open>example_embedder\<close> gives every text the vector
  \<open>[1.0, 0.0]\<close>.  \<open>example_re_search\<close> is \<open>re.search\<close> on the patterns used below: \<open>(\<close>
  does not compile (\<open>re.error\<close>), the repeat count of \<open>a{4294967296}\<close> is too large
  (\<open>OverflowError\<close>), and a pattern of plain letters matches where it occurs in the
  topic.
\<close>

definition example_embedder :: embed_fn where
  "example_embedder texts = Inr (map (\<lambda>_. [Finite 1, Finite 0]) texts)"

definition example_re_search :: re_search_fn where
  "example_re_search pattern topic =
     (if pattern = ''('' then Inl ReError
      else if pattern = ''a{4294967296}'' then Inl OverflowError
      else Inr (sublist pattern topic))"

definition sample_skill ::
  "string \<Rightarrow> string list \<Rightarrow> string list \<Rightarrow> string list \<Rightarrow> float64 \<Rightarrow> typed_skill"
where
  "sample_skill n doms kws pats thr =
     \<lparr>metadata = \<lparr>name = n, display_name = n, version = ''1.0'', description = [],
        trigger = \<lparr>domains = doms, trigger_keywords = kws, intent_patterns = pats,
                    threshold = thr\<rparr>\<rparr>,
      thinking_framework = \<lparr>framework_description = [], steps = []\<rparr>,
      tools = [],
      output_requirements = \<lparr>sections = [], style = []\<rparr>,
      file_path = []\<rparr>"

definition example_skill :: "string \<Rightarrow> string list \<Rightarrow> float64 \<Rightarrow> typed_skill" where
  "example_skill n doms thr =
     sample_skill n doms [''test'', ''verify'', ''validate'', ''check''] [''('', ''test''] thr"

definition example_skills :: "typed_skill list" where
  "example_skills =
     [example_skill ''a'' [] (Finite 0), example_skill ''b'' [''testing''] f0_4,
      example_skill ''c'' [] f0_9, example_skill ''d'' [''testing''] f0_1]"

definition example_matches :: "SkillMatch list" where
  "example_matches =
     [\<lparr>skill = example_skill ''b'' [''testing''] f0_4, score = Finite (3 / 4),
        matched_domains = [''testing''], matched_keywords = [''test'', ''verify'']\<rparr>,
      \<lparr>skill = example_skill ''d'' [''testing''] f0_1, score = Finite (3 / 4),
        matched_domains = [''testing''], matched_keywords = [''test'', ''verify'']\<rparr>]"


text \<open>Two embeddings of one very small entry each, and a service that returns the first
  for the topic \<open>test\<close> and the second for every other text.\<close>

definition tiny_a :: float64 where "tiny_a = Finite (67 * 2 powi (- 542))"
definition tiny_b :: float64 where "tiny_b = Finite (39 * 2 powi (- 542))"

definition tiny_embedder :: embed_fn where
  "tiny_embedder texts = Inr (map (\<lambda>t. if t = ''test'' then [tiny_a] else [tiny_b]) texts)"

definition tiny_skill :: typed_skill where
  "tiny_skill = sample_skill ''t'' [''tiny''] [''test''] [''test''] f0_6"

section \<open>The Retrieve stage (\<open>agent/topic_agent.py\<close>)\<close>












section \<open>Lemmas on strings\<close>

lemma split_nl_not_Nil: "split_nl s \<noteq> []"
  by (induction s) (auto split: list.splits)

lemma join_nl_Cons: "ls \<noteq> [] \<Longrightarrow> join_nl (l # ls) = l @ nl # join_nl ls"
  by (cases ls) auto

lemma join_split_nl: "join_nl (split_nl s) = s"
proof (induction s)
  case Nil
  show ?case by simp
next
  case (Cons c cs)
  show ?case
  proof (cases "c = nl")
    case True
    with Cons show ?thesis by (simp add: join_nl_Cons split_nl_not_Nil)
  next
    case False
    obtain l ls where e: "split_nl cs = l # ls"
      using split_nl_not_Nil [of cs] by (cases "split_nl cs") auto
    have "join_nl ((c # l) # ls) = c # join_nl (l # ls)"
      by (cases ls) auto
    with Cons False e show ?thesis by simp
  qed
qed

lemma split_nl_append:
  "split_nl (a @ nl # b) = split_nl a @ split_nl b"
  by (induction a) (auto split: list.splits simp: split_nl_not_Nil)

lemma split_nl_no_nl: "nl \<notin> set a \<Longrightarrow> split_nl a = [a]"
  by (induction a) auto

lemma sublist_strip: "sublist (strip s) s"
proof -
  have "sublist (rev (dropWhile is_space (rev s))) s"
    by (simp add: sublist_rev_left)
  moreover have "sublist (strip s) (rev (dropWhile is_space (rev s)))"
    by (simp add: strip_def)
  ultimately show ?thesis
    using sublist_order.order_trans by blast
qed

lemma suffix_join_tl: "suffix (join_nl (tl ls)) (join_nl ls)"
proof (cases ls)
  case Nil
  then show ?thesis by simp
next
  case (Cons l ls')
  show ?thesis
  proof (cases ls')
    case Nil
    with Cons show ?thesis by simp
  next
    case (Cons a list)
    have "join_nl ls = (l @ [nl]) @ join_nl ls'"
      using \<open>ls = l # ls'\<close> Cons by simp
    then show ?thesis
      using \<open>ls = l # ls'\<close> by (metis list.sel(3) suffix_def)
  qed
qed

lemma prefix_join_butlast: "prefix (join_nl (butlast ls)) (join_nl ls)"
proof (induction ls rule: join_nl.induct)
  case 1
  show ?case by simp
next
  case (2 l)
  show ?case by simp
next
  case (3 l l' ls)
  show ?case
  proof (cases ls)
    case Nil
    then show ?thesis by simp
  next
    case (Cons a list)
    with 3 show ?thesis by simp
  qed
qed

lemma sublist_strip_fences: "sublist (strip_fences t) t"
proof -
  define ls1 where "ls1 = (case split_nl t of l0 # rest \<Rightarrow> if startswith fence l0 then rest else split_nl t | [] \<Rightarrow> split_nl t)"
  define ls2 where "ls2 = (if ls1 \<noteq> [] \<and> strip (last ls1) = fence then butlast ls1 else ls1)"
  have r: "strip_fences t = join_nl ls2"
    by (simp add: strip_fences_def ls1_def ls2_def Let_def)
  have "ls1 = split_nl t \<or> ls1 = tl (split_nl t)"
    by (auto simp: ls1_def split: list.splits)
  then have a: "suffix (join_nl ls1) t"
    using suffix_join_tl [of "split_nl t"] by (auto simp: join_split_nl)
  have b: "prefix (join_nl ls2) (join_nl ls1)"
    using prefix_join_butlast [of ls1] by (simp add: ls2_def)
  from a b show ?thesis
    unfolding r using sublist_altdef' by blast
qed

lemma sublist_slice: "sublist (slice s a b) s"
proof -
  have "sublist (drop (nat a) (take (nat b) s)) (take (nat b) s)" by simp
  moreover have "sublist (take (nat b) s) s" by simp
  ultimately show ?thesis
    unfolding slice_def using sublist_order.order_trans by blast
qed

lemma sublist_select_brackets: "sublist (select_brackets t) t"
  by (simp add: select_brackets_def Let_def sublist_slice)

lemma extract_json_sublist: "sublist (extract_json t) t"
proof -
  define t1 where "t1 = strip t"
  define t2 where "t2 = (if startswith fence t1 then strip_fences t1 else t1)"
  have "extract_json t = select_brackets t2"
    by (simp add: extract_json_def t1_def t2_def Let_def)
  moreover have "sublist (select_brackets t2) t2" by (rule sublist_select_brackets)
  moreover have "sublist t2 t1" by (simp add: t2_def sublist_strip_fences)
  moreover have "sublist t1 t" by (simp add: t1_def sublist_strip)
  ultimately show ?thesis
    using sublist_order.order_trans by metis
qed

lemma find_cases:
  "(find_chr c s = -1 \<and> c \<notin> set s) \<or>
   (0 \<le> find_chr c s \<and> nat (find_chr c s) < length s \<and> s ! nat (find_chr c s) = c
      \<and> c \<notin> set (take (nat (find_chr c s)) s))"
proof (induction s)
  case Nil
  show ?case by simp
next
  case (Cons x xs)
  show ?case
  proof (cases "x = c")
    case True
    then show ?thesis by simp
  next
    case False
    from Cons show ?thesis
    proof
      assume "find_chr c xs = -1 \<and> c \<notin> set xs"
      with False show ?thesis by simp
    next
      assume a: "0 \<le> find_chr c xs \<and> nat (find_chr c xs) < length xs \<and> xs ! nat (find_chr c xs) = c
        \<and> c \<notin> set (take (nat (find_chr c xs)) xs)"
      then have "find_chr c (x # xs) = find_chr c xs + 1"
        using False by (simp add: Let_def)
      moreover have "nat (find_chr c xs + 1) = Suc (nat (find_chr c xs))"
        using a by linarith
      ultimately show ?thesis using a False by simp
    qed
  qed
qed

lemma find_hd: "find_chr c (c # s) = 0"
  by simp

lemma rfind_last: "rfind_chr c (s @ [c]) = int (length s)"
  by (simp add: rfind_chr_def)

lemma select_brackets_idem: "select_brackets (select_brackets t) = select_brackets t"
proof (cases "find_chr CHR ''['' t \<noteq> -1 \<and> rfind_chr CHR '']'' t \<noteq> -1 \<and> rfind_chr CHR '']'' t > find_chr CHR ''['' t")
  case False
  then show ?thesis by (auto simp: select_brackets_def Let_def)
next
  case True
  define a where "a = nat (find_chr CHR ''['' t)"
  define i where "i = nat (find_chr CHR '']'' (rev t))"
  define e where "e = length t - 1 - i"
  have fa: "find_chr CHR ''['' t = int a" "a < length t" "t ! a = CHR ''[''"
    using find_cases [of "CHR ''[''" t] True by (auto simp: a_def)
  have fi: "find_chr CHR '']'' (rev t) = int i" "i < length t" "rev t ! i = CHR '']''"
    using find_cases [of "CHR '']''" "rev t"] True by (auto simp: i_def rfind_chr_def Let_def split: if_splits)
  have re: "rfind_chr CHR '']'' t = int e"
    using fi by (auto simp: rfind_chr_def e_def Let_def)
  have ae: "a < e" "e < length t" using True fa re fi by (auto simp: e_def)
  have te: "t ! e = CHR '']''"
    using fi ae by (simp add: rev_nth e_def)
  define r where "r = select_brackets t"
  have r: "r = drop a (take (Suc e) t)"
    using True fa re by (simp add: r_def select_brackets_def slice_def Let_def nat_add_distrib)
  have lr: "length r = Suc e - a" using ae by (simp add: r)
  obtain m where m: "r = CHR ''['' # m"
  proof -
    have "r \<noteq> []" using lr ae by auto
    moreover have "r ! 0 = CHR ''[''"
      using ae fa by (simp add: r)
    ultimately show ?thesis using that by (cases r) auto
  qed
  obtain k where k: "r = k @ [CHR '']'']"
  proof -
    have "r \<noteq> []" using lr ae by auto
    moreover have "last r = CHR '']''"
      using ae te lr by (simp add: r last_drop last_conv_nth min_def)
    ultimately show ?thesis using that by (metis append_butlast_last_id)
  qed
  have f0: "find_chr CHR ''['' r = 0" by (simp add: m)
  have f1: "rfind_chr CHR '']'' r = int (length r) - 1"
    using rfind_last [of "CHR '']''" k] by (simp add: k)
  have "length r \<ge> 2" using lr ae by simp
  then have "select_brackets r = r"
    by (simp add: select_brackets_def Let_def f0 f1 slice_def)
  then show ?thesis by (simp add: r_def)
qed

lemma sublist_neq_length: "sublist xs ys \<Longrightarrow> xs \<noteq> ys \<Longrightarrow> length xs < length ys"
  by (auto simp: sublist_def)

lemma split_nl_prepend:
  "nl \<notin> set p \<Longrightarrow> split_nl (p @ s) = (p @ hd (split_nl s)) # tl (split_nl s)"
  by (induction p) (auto simp: split_nl_not_Nil split: list.splits)

lemma startswith_append: "startswith p s \<longleftrightarrow> (\<exists>r. s = p @ r)"
  unfolding startswith_def
  by (metis append_eq_conv_conj append_take_drop_id)

lemma nl_notin_fence: "nl \<notin> set fence"
  by (simp add: nl_def fence_def)

lemma strip_fences_shorter:
  assumes "startswith fence t"
  shows "length (strip_fences t) < length t"
proof -
  obtain s where s: "t = fence @ s"
    using assms startswith_append by blast
  define l0 where "l0 = fence @ hd (split_nl s)"
  have sp: "split_nl t = l0 # tl (split_nl s)"
    unfolding s l0_def by (rule split_nl_prepend [OF nl_notin_fence])
  have l0: "startswith fence l0"
    by (simp add: l0_def startswith_def)
  define ls1 where "ls1 = tl (split_nl s)"
  define ls2 where "ls2 = (if ls1 \<noteq> [] \<and> strip (last ls1) = fence then butlast ls1 else ls1)"
  have r: "strip_fences t = join_nl ls2"
    by (simp add: strip_fences_def sp l0 ls1_def ls2_def Let_def)
  have "prefix (join_nl ls2) (join_nl ls1)"
    using prefix_join_butlast [of ls1] by (simp add: ls2_def)
  then have "length (join_nl ls2) \<le> length (join_nl ls1)"
    by (rule prefix_length_le)
  moreover have "length (join_nl ls1) \<le> length s"
    using suffix_join_tl [of "split_nl s"] suffix_length_le
    by (fastforce simp: ls1_def join_split_nl)
  moreover have "length s < length t"
    by (simp add: s fence_def)
  ultimately show ?thesis by (simp add: r)
qed

lemma strip_id:
  assumes "s \<noteq> []" "\<not> is_space (hd s)" "\<not> is_space (last s)"
  shows "strip s = s"
proof -
  have "dropWhile is_space (rev s) = rev s"
    using assms by (cases "rev s") (auto simp: last_rev hd_rev)
  moreover have "dropWhile is_space s = s"
    using assms by (cases s) auto
  ultimately show ?thesis by (simp add: strip_def)
qed

lemma strip_strip: "strip (strip s) = strip s"
proof (cases "strip s = []")
  case True
  moreover have "strip [] = []" by (simp add: strip_def)
  ultimately show ?thesis by simp
next
  case False
  define u where "u = dropWhile is_space (rev s)"
  define n where "n = length (takeWhile is_space (rev u))"
  have v: "strip s = dropWhile is_space (rev u)" by (simp add: strip_def u_def)
  have un: "u \<noteq> []" using False v by auto
  have hu: "\<not> is_space (hd u)"
    using un hd_dropWhile [of is_space "rev s"] by (simp add: u_def)
  have d: "strip s = drop n (rev u)"
    unfolding v n_def by (rule dropWhile_eq_drop)
  have "n < length (rev u)"
    using False d by auto
  then have "last (strip s) = last (rev u)"
    unfolding d by (rule last_drop)
  then have l: "last (strip s) = hd u"
    using un by (simp add: last_rev)
  have "\<not> is_space (hd (strip s))"
    using False hd_dropWhile [of is_space "rev u"] by (simp add: v)
  with hu l show ?thesis
    using False by (simp add: strip_id)
qed

lemma extract_json_fixpoint:
  "extract_json r = r \<longleftrightarrow>
     strip r = r \<and> \<not> startswith fence r \<and> select_brackets r = r"
proof
  assume "strip r = r \<and> \<not> startswith fence r \<and> select_brackets r = r"
  then show "extract_json r = r"
    by (simp add: extract_json_def)
next
  assume fx: "extract_json r = r"
  have s: "strip r = r"
  proof (rule ccontr)
    assume "strip r \<noteq> r"
    then have "length (strip r) < length r"
      using sublist_strip sublist_neq_length by blast
    moreover have "length (extract_json (strip r)) \<le> length (strip r)"
      using extract_json_sublist sublist_length_le by blast
    moreover have "extract_json (strip r) = extract_json r"
      by (simp add: extract_json_def strip_strip)
    ultimately show False using fx by simp
  qed
  have f: "\<not> startswith fence r"
  proof
    assume a: "startswith fence r"
    then have "extract_json r = select_brackets (strip_fences r)"
      by (simp add: extract_json_def s)
    moreover have "length (select_brackets (strip_fences r)) \<le> length (strip_fences r)"
      using sublist_select_brackets sublist_length_le by blast
    ultimately show False
      using strip_fences_shorter [OF a] fx by simp
  qed
  from s f fx show "strip r = r \<and> \<not> startswith fence r \<and> select_brackets r = r"
    by (simp add: extract_json_def)
qed

lemma extract_json_twice:
  "extract_json (extract_json t) = extract_json t \<longleftrightarrow>
     strip (extract_json t) = extract_json t \<and> \<not> startswith fence (extract_json t)"
proof -
  have "select_brackets (extract_json t) = extract_json t"
    by (simp add: extract_json_def Let_def select_brackets_idem)
  then show ?thesis
    using extract_json_fixpoint [of "extract_json t"] by simp
qed

lemma strip_fence: "strip fence = fence"
  by (rule strip_id) (simp_all add: fence_def is_space_def)

lemma extract_json_fenced:
  assumes "nl \<notin> set info"
  shows "extract_json (fence @ info @ nl # body @ nl # fence) = select_brackets body"
proof -
  define t where "t = fence @ info @ nl # body @ nl # fence"
  have st: "strip t = t"
    by (rule strip_id) (simp_all add: t_def fence_def is_space_def)
  have sw: "startswith fence t"
    by (simp add: t_def startswith_def)
  have "split_nl t = split_nl (fence @ info) @ split_nl body @ split_nl fence"
    using split_nl_append [of "fence @ info" "body @ nl # fence"] split_nl_append [of body fence]
    by (simp add: t_def)
  then have sp: "split_nl t = (fence @ info) # (split_nl body @ [fence])"
    using assms nl_notin_fence by (simp add: split_nl_no_nl)
  have "strip_fences t = join_nl (split_nl body)"
    by (simp add: strip_fences_def sp startswith_def Let_def strip_fence split_nl_not_Nil)
  then show ?thesis
    by (simp add: extract_json_def st sw t_def [symmetric] join_split_nl)
qed

section \<open>Lemmas on rounding\<close>

lemma rhe_of_int [simp]: "round_half_even (of_int n) = n"
  by (simp add: round_half_even_def)

lemma rhe_zero [simp]: "round_half_even 0 = 0"
  using rhe_of_int [of 0] by simp

lemma power_int_2_less_cancel:
  assumes "(2::real) powi a < 2 powi b"
  shows "a < b"
proof (rule ccontr)
  assume "\<not> a < b"
  then have "(2::real) powi b \<le> 2 powi a" by (intro power_int_increasing) simp_all
  with assms show False by simp
qed

lemma rhe_bounds: "\<bar>of_int (round_half_even x) - x\<bar> \<le> 1 / 2"
  unfolding round_half_even_def Let_def by (auto simp: abs_if) linarith+

lemma rhe_eqI:
  assumes "of_int n - 1 / 2 < x" "x < of_int n + 1 / 2"
  shows "round_half_even x = n"
proof -
  have "\<bar>of_int (round_half_even x) - x\<bar> \<le> 1 / 2" by (rule rhe_bounds)
  with assms have "\<bar>(of_int (round_half_even x) :: real) - of_int n\<bar> < 1" by linarith
  then have "\<bar>round_half_even x - n\<bar> < 1"
    by (metis of_int_abs of_int_diff of_int_less_1_iff)
  then show ?thesis by simp
qed

lemma rhe_tie_even:
  assumes "x = of_int n + 1 / 2" "even n"
  shows "round_half_even x = n"
proof -
  from assms(1) have "\<lfloor>x\<rfloor> = n" by linarith
  with assms show ?thesis by (simp add: round_half_even_def)
qed

lemma rhe_tie_odd:
  assumes "x = of_int n + 1 / 2" "odd n"
  shows "round_half_even x = n + 1"
proof -
  from assms(1) have "\<lfloor>x\<rfloor> = n" by linarith
  with assms show ?thesis by (simp add: round_half_even_def)
qed

lemma rhe_mono:
  assumes "x \<le> y"
  shows "round_half_even x \<le> round_half_even y"
proof (rule ccontr)
  assume "\<not> ?thesis"
  then have lt: "round_half_even y + 1 \<le> round_half_even x" by simp
  have bx: "\<bar>of_int (round_half_even x) - x\<bar> \<le> 1 / 2"
    and by': "\<bar>of_int (round_half_even y) - y\<bar> \<le> 1 / 2"
    by (rule rhe_bounds)+
  from lt have r: "(of_int (round_half_even y) :: real) + 1 \<le> of_int (round_half_even x)"
    by (metis of_int_1 of_int_add of_int_le_iff)
  with bx by' assms have xe: "x = of_int (round_half_even x) - 1 / 2"
    and ye: "y = of_int (round_half_even y) + 1 / 2"
    and e: "round_half_even x = round_half_even y + 1"
    by linarith+
  from xe e have xy: "x = of_int (round_half_even y) + 1 / 2" by simp
  show False
  proof (cases "even (round_half_even y)")
    case True
    from rhe_tie_even [OF xy True] e show False by simp
  next
    case False
    from rhe_tie_odd [OF ye False] show False by simp
  qed
qed

lemma rhe_nonneg: "0 \<le> x \<Longrightarrow> 0 \<le> round_half_even x"
  using rhe_mono [of 0 x] rhe_of_int [of 0] by simp

lemma rhe_neg: "round_half_even (- x) = - round_half_even x"
proof -
  define n where "n = round_half_even x"
  define f where "f = \<lfloor>x\<rfloor>"
  have fx: "of_int f \<le> x" "x < of_int f + 1" unfolding f_def by linarith+
  consider "x - of_int f < 1 / 2" | "x - of_int f > 1 / 2" | "x - of_int f = 1 / 2" by linarith
  then show ?thesis
  proof cases
    case 1
    then have "round_half_even x = f" by (simp add: round_half_even_def f_def)
    moreover have "round_half_even (- x) = - f"
      by (rule rhe_eqI) (use 1 fx in simp_all)
    ultimately show ?thesis by simp
  next
    case 2
    then have "round_half_even x = f + 1" by (simp add: round_half_even_def f_def)
    moreover have "round_half_even (- x) = - (f + 1)"
      by (rule rhe_eqI) (use 2 fx in simp_all)
    ultimately show ?thesis by simp
  next
    case 3
    then have x: "x = of_int f + 1 / 2" by simp
    then have nx: "- x = of_int (- f - 1) + 1 / 2" by simp
    show ?thesis
    proof (cases "even f")
      case True
      then have "odd (- f - 1)" by simp
      from rhe_tie_even [OF x True] rhe_tie_odd [OF nx this] show ?thesis by simp
    next
      case False
      then have "even (- f - 1)" by simp
      from rhe_tie_odd [OF x False] rhe_tie_even [OF nx this] show ?thesis by simp
    qed
  qed
qed

lemma floor_log2_eq:
  assumes "2 powi e \<le> x" "x < 2 powi (e + 1)"
  shows "\<lfloor>log 2 x\<rfloor> = e"
proof -
  have "0 < (2::real) powi e" by simp
  with assms have "0 < x" by linarith
  moreover have "(2::real) powr of_int e = 2 powi e" "(2::real) powr of_int (e + 1) = 2 powi (e + 1)"
    using powr_real_of_int' [of "2::real" e] powr_real_of_int' [of "2::real" "e + 1"] by simp_all
  ultimately show ?thesis
    using assms floor_log_eq_powr_iff [of x 2 e] by simp
qed

lemma floor_log2_bounds:
  assumes "0 < x"
  shows "2 powi \<lfloor>log 2 x\<rfloor> \<le> x" "x < 2 powi (\<lfloor>log 2 x\<rfloor> + 1)"
proof -
  have "(2::real) powr of_int \<lfloor>log 2 x\<rfloor> = 2 powi \<lfloor>log 2 x\<rfloor>"
       "(2::real) powr of_int (\<lfloor>log 2 x\<rfloor> + 1) = 2 powi (\<lfloor>log 2 x\<rfloor> + 1)"
    using powr_real_of_int' [of "2::real" "\<lfloor>log 2 x\<rfloor>"]
          powr_real_of_int' [of "2::real" "\<lfloor>log 2 x\<rfloor> + 1"] by simp_all
  then show "2 powi \<lfloor>log 2 x\<rfloor> \<le> x" "x < 2 powi (\<lfloor>log 2 x\<rfloor> + 1)"
    using floor_log_eq_powr_iff [of x 2 "\<lfloor>log 2 x\<rfloor>"] assms by simp_all
qed

lemma round64_rounded:
  "round64 x = (if \<bar>rounded x\<bar> \<ge> overflow_threshold then (if x > 0 then PosInf else NegInf)
                else Finite (rounded x))"
  by (simp add: round64_def rounded_def Let_def)

lemma exponent_neg [simp]: "exponent (- x) = exponent x"
  by (simp add: exponent_def)

lemma rounded_neg: "rounded (- x) = - rounded x"
  by (simp add: rounded_def rhe_neg)

lemma rounded_nonneg: "0 \<le> x \<Longrightarrow> 0 \<le> rounded x"
  by (simp add: rounded_def rhe_nonneg)

lemma exponent_mono:
  assumes "0 < x" "x \<le> y"
  shows "exponent x \<le> exponent y"
proof -
  have "log 2 x \<le> log 2 y" using assms by simp
  then have "\<lfloor>log 2 x\<rfloor> \<le> \<lfloor>log 2 y\<rfloor>" by (rule floor_mono)
  with assms show ?thesis by (simp add: exponent_def)
qed

lemma rounded_le_binade:
  assumes "0 < x"
  shows "rounded x \<le> 2 powi (exponent x + 1)"
proof -
  define e where "e = exponent x"
  have "\<lfloor>log 2 x\<rfloor> \<le> e" using assms by (simp add: e_def exponent_def)
  then have "(2::real) powi (\<lfloor>log 2 x\<rfloor> + 1) \<le> 2 powi (e + 1)"
    by (intro power_int_increasing) simp_all
  with floor_log2_bounds(2) [OF assms] have "x \<le> 2 powi (e + 1)" by linarith
  then have "x / 2 powi (e - 52) \<le> 2 powi (e + 1) / 2 powi (e - 52)"
    by (simp add: divide_right_mono)
  also have "(2::real) powi (e + 1) / 2 powi (e - 52) = 2 powi 53"
    by (simp add: power_int_diff [symmetric])
  finally have "round_half_even (x / 2 powi (e - 52)) \<le> round_half_even (of_int (2 ^ 53))"
    by (intro rhe_mono) simp
  then have "round_half_even (x / 2 powi (e - 52)) \<le> 2 ^ 53"
    unfolding rhe_of_int .
  then have "(of_int (round_half_even (x / 2 powi (e - 52))) :: real) \<le> 2 ^ 53"
    by (metis of_int_le_iff of_int_numeral of_int_power)
  then have "rounded x \<le> 2 ^ 53 * 2 powi (e - 52)"
    unfolding rounded_def e_def [symmetric] by (intro mult_right_mono) simp_all
  also have "(2::real) ^ 53 * 2 powi (e - 52) = 2 powi (e + 1)"
    using power_int_add [of "2::real" 53 "e - 52"] by (simp add: add.commute)
  finally show ?thesis unfolding e_def .
qed

lemma rounded_ge_binade:
  assumes "0 < x" "- 1022 < exponent x"
  shows "2 powi exponent x \<le> rounded x"
proof -
  define e where "e = exponent x"
  from assms have "\<lfloor>log 2 x\<rfloor> = e" by (simp add: e_def exponent_def max_def split: if_splits)
  with floor_log2_bounds(1) [OF assms(1)] have "2 powi e \<le> x" by simp
  then have "2 powi e / 2 powi (e - 52) \<le> x / 2 powi (e - 52)"
    by (simp add: divide_right_mono)
  moreover have "(2::real) powi e / 2 powi (e - 52) = 2 powi 52"
    by (simp add: power_int_diff [symmetric])
  ultimately have "round_half_even (of_int (2 ^ 52)) \<le> round_half_even (x / 2 powi (e - 52))"
    by (intro rhe_mono) simp
  then have "2 ^ 52 \<le> round_half_even (x / 2 powi (e - 52))"
    unfolding rhe_of_int .
  then have "(2::real) ^ 52 \<le> of_int (round_half_even (x / 2 powi (e - 52)))"
    by (metis of_int_le_iff of_int_numeral of_int_power)
  then have "2 ^ 52 * 2 powi (e - 52) \<le> rounded x"
    unfolding rounded_def e_def [symmetric] by (intro mult_right_mono) simp_all
  moreover have "(2::real) ^ 52 * 2 powi (e - 52) = 2 powi e"
    using power_int_add [of "2::real" 52 "e - 52"] by (simp add: add.commute)
  ultimately show ?thesis unfolding e_def by simp
qed

lemma rounded_mono_pos:
  assumes "0 < x" "x \<le> y"
  shows "rounded x \<le> rounded y"
proof (cases "exponent x = exponent y")
  case True
  have "x / 2 powi (exponent y - 52) \<le> y / 2 powi (exponent y - 52)"
    using assms by (simp add: divide_right_mono)
  then have "round_half_even (x / 2 powi (exponent y - 52))
               \<le> round_half_even (y / 2 powi (exponent y - 52))"
    by (rule rhe_mono)
  then show ?thesis
    unfolding rounded_def True by (intro mult_right_mono) simp_all
next
  case False
  with exponent_mono [OF assms] have lt: "exponent x < exponent y" by simp
  have "- 1022 \<le> exponent x" by (simp add: exponent_def)
  with lt have "- 1022 < exponent y" by simp
  with assms have "2 powi exponent y \<le> rounded y" by (intro rounded_ge_binade) simp_all
  moreover have "(2::real) powi (exponent x + 1) \<le> 2 powi exponent y"
    using lt by (intro power_int_increasing) simp_all
  ultimately show ?thesis using rounded_le_binade [OF assms(1)] by linarith
qed

lemma rounded_mono:
  assumes "x \<le> y"
  shows "rounded x \<le> rounded y"
proof -
  consider "0 < x" | "x \<le> 0" "0 \<le> y" | "y < 0" by linarith
  then show ?thesis
  proof cases
    case 1
    then show ?thesis using assms by (rule rounded_mono_pos)
  next
    case 2
    then have "0 \<le> rounded y" "0 \<le> rounded (- x)" by (simp_all add: rounded_nonneg)
    then show ?thesis by (simp add: rounded_neg)
  next
    case 3
    then have "0 < - y" "- y \<le> - x" using assms by simp_all
    then have "rounded (- y) \<le> rounded (- x)" by (rule rounded_mono_pos)
    then show ?thesis by (simp add: rounded_neg)
  qed
qed


lemma overflow_threshold_pos: "0 < overflow_threshold"
  by (simp add: overflow_threshold_def)

lemma round64_not_NaN [simp]: "round64 x \<noteq> NaN"
  by (simp add: round64_rounded)

lemma round64_mono:
  assumes "x \<le> y"
  shows "fle (round64 x) (round64 y)"
proof -
  note m = rounded_mono [OF assms]
  note p = overflow_threshold_pos
  show ?thesis
  proof (cases "\<bar>rounded y\<bar> \<ge> overflow_threshold")
    case True
    show ?thesis
    proof (cases "y > 0")
      case True
      with \<open>\<bar>rounded y\<bar> \<ge> overflow_threshold\<close> have "round64 y = PosInf"
        by (simp add: round64_rounded)
      then show ?thesis by (cases "round64 x") simp_all
    next
      case False
      then have "rounded (- y) \<ge> 0" by (intro rounded_nonneg) simp
      then have "rounded y \<le> 0" by (simp add: rounded_neg)
      with True m p have "\<bar>rounded x\<bar> \<ge> overflow_threshold" by linarith
      with True False assms show ?thesis by (simp add: round64_rounded)
    qed
  next
    case False
    show ?thesis
    proof (cases "\<bar>rounded x\<bar> \<ge> overflow_threshold")
      case True
      have "\<not> x > 0"
      proof
        assume "x > 0"
        then have "rounded x \<ge> 0" by (intro rounded_nonneg) simp
        with True m False show False by linarith
      qed
      with True False show ?thesis by (simp add: round64_rounded)
    next
      case nx: False
      with False m show ?thesis by (simp add: round64_rounded)
    qed
  qed
qed

text \<open>A number with 53 significant bits above the smallest exponent is its own
  rounding.\<close>

lemma rounded_representable:
  assumes "x = of_int m * 2 powi k" "\<bar>m\<bar> < 2 ^ 53" "- 1074 \<le> k"
  shows "rounded x = x"
proof (cases "x = 0")
  case True
  then show ?thesis by (simp add: rounded_def)
next
  case False
  define e where "e = exponent x"
  have le: "e - 52 \<le> k"
  proof (cases "\<lfloor>log 2 \<bar>x\<bar>\<rfloor> \<le> - 1022")
    case True
    then have "e = - 1022" by (simp add: e_def exponent_def)
    with assms(3) show ?thesis by simp
  next
    case nc: False
    then have e: "e = \<lfloor>log 2 \<bar>x\<bar>\<rfloor>" by (simp add: e_def exponent_def)
    from False have "0 < \<bar>x\<bar>" by simp
    from floor_log2_bounds(1) [OF this] have "2 powi e \<le> \<bar>x\<bar>" by (simp add: e)
    also have "\<bar>x\<bar> = \<bar>of_int m\<bar> * 2 powi k" by (simp add: assms(1) abs_mult)
    also have "\<dots> < 2 ^ 53 * 2 powi k"
    proof -
      from assms(2) have "\<bar>of_int m :: real\<bar> < 2 ^ 53"
        by (metis of_int_abs of_int_less_iff of_int_numeral of_int_power)
      then show ?thesis by (intro mult_strict_right_mono) simp_all
    qed
    also have "(2::real) ^ 53 * 2 powi k = 2 powi (53 + k)"
      using power_int_add [of "2::real" 53 k] by simp
    finally have "(2::real) powi e < 2 powi (53 + k)" .
    then have "e < 53 + k" by (rule power_int_2_less_cancel)
    then show ?thesis by simp
  qed
  then obtain d where d: "k = (e - 52) + int d"
    by (metis add_diff_cancel_left' diff_add_cancel nonneg_int_cases diff_ge_0_iff_ge)
  have "x / 2 powi (e - 52) = of_int m * 2 powi (int d)"
    unfolding assms(1) d by (simp add: power_int_add)
  also have "\<dots> = of_int (m * 2 ^ d)" by simp
  finally have "round_half_even (x / 2 powi (e - 52)) = m * 2 ^ d"
    by (simp only: rhe_of_int)
  then have "rounded x = of_int (m * 2 ^ d) * 2 powi (e - 52)"
    by (simp add: rounded_def e_def)
  also have "\<dots> = of_int m * (2 powi (int d) * 2 powi (e - 52))" by simp
  also have "2 powi (int d) * 2 powi (e - 52) = (2::real) powi k"
    unfolding d using power_int_add [of "2::real" "e - 52" "int d"] by (simp add: mult.commute)
  finally show ?thesis by (simp add: assms(1))
qed

lemma round64_representable:
  assumes "x = of_int m * 2 powi k" "\<bar>m\<bar> < 2 ^ 53" "- 1074 \<le> k" "\<bar>x\<bar> < overflow_threshold"
  shows "round64 x = Finite x"
  using rounded_representable [OF assms(1-3)] assms(4) by (simp add: round64_rounded)

text \<open>Evaluating a rounding when the binade of the argument is known.\<close>

lemma exponent_eqI:
  assumes "2 powi e \<le> \<bar>x\<bar>" "\<bar>x\<bar> < 2 powi (e + 1)" "- 1022 \<le> e"
  shows "exponent x = e"
  using floor_log2_eq [OF assms(1,2)] assms(3) by (simp add: exponent_def)

lemma exponent_subnormal:
  assumes "\<bar>x\<bar> < 2 powi (- 1022)" "x \<noteq> 0"
  shows "exponent x = - 1022"
proof -
  from assms(2) have p: "0 < \<bar>x\<bar>" by simp
  from floor_log2_bounds(1) [OF p] assms(1)
  have "(2::real) powi \<lfloor>log 2 \<bar>x\<bar>\<rfloor> < 2 powi (- 1022)" by linarith
  then have "\<lfloor>log 2 \<bar>x\<bar>\<rfloor> < - 1022" by (rule power_int_2_less_cancel)
  then show ?thesis by (simp add: exponent_def)
qed

section \<open>Lemmas on float arithmetic\<close>

lemma round64_eval:
  assumes "exponent x = e" "round_half_even (x / 2 powi (e - 52)) = n"
    "\<bar>of_int n * 2 powi (e - 52)\<bar> < overflow_threshold"
  shows "round64 x = Finite (of_int n * 2 powi (e - 52))"
  using assms by (simp add: round64_rounded rounded_def)

lemma round64_zero [simp]: "round64 0 = Finite 0"
  using round64_representable [of 0 0 0] by (simp add: overflow_threshold_def)

lemma round64_one [simp]: "round64 1 = Finite 1"
  using round64_representable [of 1 1 0] by (simp add: overflow_threshold_def)

lemma fle_trans: "fle a b \<Longrightarrow> fle b c \<Longrightarrow> fle a c"
  by (cases a; cases b; cases c) simp_all

lemma flt_imp_fle: "flt a b \<Longrightarrow> fle a b"
  by (cases a; cases b) simp_all

lemma fle_refl: "a \<noteq> NaN \<Longrightarrow> fle a a"
  by (cases a) simp_all

lemma fle_not_NaN: "fle a b \<Longrightarrow> a \<noteq> NaN \<and> b \<noteq> NaN"
  by (cases a; cases b) simp_all

lemma not_flt_iff: "a \<noteq> NaN \<Longrightarrow> b \<noteq> NaN \<Longrightarrow> \<not> flt a b \<longleftrightarrow> fle b a"
  by (cases a; cases b) auto

lemma fle_antisym: "fle a b \<Longrightarrow> fle b a \<Longrightarrow> a = b"
  by (cases a; cases b) simp_all


lemma round64_between:
  assumes "a \<le> x" "x \<le> b" "round64 a = Finite a'" "round64 b = Finite b'"
  shows "\<exists>r. round64 x = Finite r \<and> a' \<le> r \<and> r \<le> b'"
  using round64_mono [OF assms(1)] round64_mono [OF assms(2)] assms(3,4)
  by (cases "round64 x") simp_all

lemma round64_nonneg:
  assumes "0 \<le> x"
  shows "fge (round64 x) (Finite 0)"
  using round64_mono [OF assms] by (simp add: fge_def)

lemma truediv_bounds:
  assumes "m \<le> n" "0 < n"
  shows "\<exists>r. truediv m n = Finite r \<and> 0 \<le> r \<and> r \<le> 1"
  unfolding truediv_def
  by (rule round64_between [of 0 _ 1]) (use assms in simp_all)

lemma fadd_nonneg:
  assumes "fge a (Finite 0)" "fge b (Finite 0)"
  shows "fge (fadd a b) (Finite 0)"
proof (cases a)
  case (Finite x)
  show ?thesis
  proof (cases b)
    case (Finite y)
    with \<open>a = Finite x\<close> assms have "0 \<le> x + y" by (simp add: fge_def)
    then have "fge (round64 (x + y)) (Finite 0)" by (rule round64_nonneg)
    with Finite \<open>a = Finite x\<close> show ?thesis by simp
  qed (use \<open>a = Finite x\<close> assms in \<open>simp_all add: fge_def\<close>)
qed (use assms in \<open>cases b; simp add: fge_def\<close>)+

lemma fmul_const_nonneg:
  assumes "0 < c" "fge b (Finite 0)"
  shows "fge (fmul (Finite c) b) (Finite 0)"
proof (cases b)
  case (Finite y)
  with assms have "0 \<le> c * y" by (simp add: fge_def)
  then show ?thesis by (simp add: Finite round64_nonneg)
qed (use assms in \<open>simp_all add: fge_def\<close>)

section \<open>Roundings of the sample computations\<close>

lemma round64_numeral [simp]:
  assumes "numeral k < (2::real) ^ 53"
  shows "round64 (numeral k) = Finite (numeral k)"
proof (rule round64_representable)
  show "(numeral k :: real) = of_int (numeral k) * 2 powi 0" by simp
  have "real_of_int (numeral k) < real_of_int (2 ^ 53)"
    using assms by (simp only: of_int_numeral of_int_power)
  then have "(numeral k :: int) < 2 ^ 53" by (simp only: of_int_less_iff)
  then show "\<bar>numeral k :: int\<bar> < 2 ^ 53" by simp
  show "- 1074 \<le> (0 :: int)" by simp
  have "(2::real) ^ 53 < 2 ^ 1024" by simp
  with assms have "(numeral k :: real) < 2 ^ 1024" by (rule less_trans)
  then show "\<bar>numeral k :: real\<bar> < overflow_threshold"
    unfolding overflow_threshold_def by (simp only: abs_numeral)
qed

lemma round64_half [simp]: "round64 (1 / 2) = Finite (1 / 2)"
  using round64_representable [of "1 / 2" 1 "- 1"] by (simp add: overflow_threshold_def)


lemma fmul_0_5_one: "fmul f0_5 (Finite 1) = f0_5"
proof -
  have e: "exponent ((1 / 2) * 1) = - 1"
    by (rule exponent_eqI) simp_all
  have n: "round_half_even (((1 / 2) * 1) / 2 powi ((- 1) - 52)) = 4503599627370496"
    by (rule rhe_eqI) simp_all
  have r: "round64 ((1 / 2) * 1) = Finite (of_int (4503599627370496) * 2 powi ((- 1) - 52))"
    using e n by (rule round64_eval) (simp add: overflow_threshold_def)
  from r show ?thesis by (simp add: f0_5_def)
qed

lemma fmul_0_5_zero: "fmul f0_5 (Finite 0) = Finite 0"
  by (simp add: f0_5_def)

lemma fmul_0_3_half: "fmul f0_3 (Finite (1 / 2)) = f0_15"
proof -
  have e: "exponent ((5404319552844595 / 2 ^ 54) * (1 / 2)) = - 3"
    by (rule exponent_eqI) simp_all
  have n: "round_half_even (((5404319552844595 / 2 ^ 54) * (1 / 2)) / 2 powi ((- 3) - 52)) = 5404319552844595"
    by (rule rhe_eqI) simp_all
  have r: "round64 ((5404319552844595 / 2 ^ 54) * (1 / 2)) = Finite (of_int (5404319552844595) * 2 powi ((- 3) - 52))"
    using e n by (rule round64_eval) (simp add: overflow_threshold_def)
  from r show ?thesis by (simp add: f0_3_def f0_15_def)
qed

lemma fmul_0_2_half: "fmul f0_2 (Finite (1 / 2)) = f0_1"
proof -
  have e: "exponent ((3602879701896397 / 2 ^ 54) * (1 / 2)) = - 4"
    by (rule exponent_eqI) simp_all
  have n: "round_half_even (((3602879701896397 / 2 ^ 54) * (1 / 2)) / 2 powi ((- 4) - 52)) = 7205759403792794"
    by (rule rhe_eqI) simp_all
  have r: "round64 ((3602879701896397 / 2 ^ 54) * (1 / 2)) = Finite (of_int (7205759403792794) * 2 powi ((- 4) - 52))"
    using e n by (rule round64_eval) (simp add: overflow_threshold_def)
  from r show ?thesis by (simp add: f0_2_def f0_1_def)
qed

lemma fadd_0_5_0_15: "fadd f0_5 f0_15 = f0_65"
proof -
  have e: "exponent ((1 / 2) + (5404319552844595 / 2 ^ 55)) = - 1"
    by (rule exponent_eqI) simp_all
  have n: "round_half_even (((1 / 2) + (5404319552844595 / 2 ^ 55)) / 2 powi ((- 1) - 52)) = 5854679515581645"
    by (rule rhe_eqI) simp_all
  have r: "round64 ((1 / 2) + (5404319552844595 / 2 ^ 55)) = Finite (of_int (5854679515581645) * 2 powi ((- 1) - 52))"
    using e n by (rule round64_eval) (simp add: overflow_threshold_def)
  from r show ?thesis by (simp add: f0_5_def f0_15_def f0_65_def)
qed

lemma fadd_0_65_0_1: "fadd f0_65 f0_1 = Finite (3 / 4)"
proof -
  have e: "exponent ((5854679515581645 / 2 ^ 53) + (3602879701896397 / 2 ^ 55)) = - 1"
    by (rule exponent_eqI) simp_all
  have n: "round_half_even (((5854679515581645 / 2 ^ 53) + (3602879701896397 / 2 ^ 55)) / 2 powi ((- 1) - 52)) = 6755399441055744"
    by (rule rhe_eqI) simp_all
  have r: "round64 ((5854679515581645 / 2 ^ 53) + (3602879701896397 / 2 ^ 55)) = Finite (of_int (6755399441055744) * 2 powi ((- 1) - 52))"
    using e n by (rule round64_eval) (simp add: overflow_threshold_def)
  from r show ?thesis by (simp add: f0_65_def f0_1_def)
qed

lemma fadd_zero_0_15: "fadd (Finite 0) f0_15 = f0_15"
proof -
  have e: "exponent (0 + (5404319552844595 / 2 ^ 55)) = - 3"
    by (rule exponent_eqI) simp_all
  have n: "round_half_even ((0 + (5404319552844595 / 2 ^ 55)) / 2 powi ((- 3) - 52)) = 5404319552844595"
    by (rule rhe_eqI) simp_all
  have r: "round64 (0 + (5404319552844595 / 2 ^ 55)) = Finite (of_int (5404319552844595) * 2 powi ((- 3) - 52))"
    using e n by (rule round64_eval) (simp add: overflow_threshold_def)
  from r show ?thesis by (simp add: f0_15_def)
qed

lemma fadd_0_15_0_1: "fadd f0_15 f0_1 = Finite (1 / 4)"
proof -
  have e: "exponent ((5404319552844595 / 2 ^ 55) + (3602879701896397 / 2 ^ 55)) = - 2"
    by (rule exponent_eqI) simp_all
  have n: "round_half_even (((5404319552844595 / 2 ^ 55) + (3602879701896397 / 2 ^ 55)) / 2 powi ((- 2) - 52)) = 4503599627370496"
    by (rule rhe_eqI) simp_all
  have r: "round64 ((5404319552844595 / 2 ^ 55) + (3602879701896397 / 2 ^ 55)) = Finite (of_int (4503599627370496) * 2 powi ((- 2) - 52))"
    using e n by (rule round64_eval) (simp add: overflow_threshold_def)
  from r show ?thesis by (simp add: f0_15_def f0_1_def)
qed

lemma fmul_0_5_three_halves: "fmul f0_5 (Finite (3 / 2)) = Finite (3 / 4)"
proof -
  have e: "exponent ((1 / 2) * (3 / 2 ^ 1)) = - 1"
    by (rule exponent_eqI) simp_all
  have n: "round_half_even (((1 / 2) * (3 / 2 ^ 1)) / 2 powi ((- 1) - 52)) = 6755399441055744"
    by (rule rhe_eqI) simp_all
  have r: "round64 ((1 / 2) * (3 / 2 ^ 1)) = Finite (of_int (6755399441055744) * 2 powi ((- 1) - 52))"
    using e n by (rule round64_eval) (simp add: overflow_threshold_def)
  from r show ?thesis by (simp add: f0_5_def)
qed

lemma fmul_0_3_one: "fmul f0_3 (Finite 1) = f0_3"
proof -
  have e: "exponent ((5404319552844595 / 2 ^ 54) * 1) = - 2"
    by (rule exponent_eqI) simp_all
  have n: "round_half_even (((5404319552844595 / 2 ^ 54) * 1) / 2 powi ((- 2) - 52)) = 5404319552844595"
    by (rule rhe_eqI) simp_all
  have r: "round64 ((5404319552844595 / 2 ^ 54) * 1) = Finite (of_int (5404319552844595) * 2 powi ((- 2) - 52))"
    using e n by (rule round64_eval) (simp add: overflow_threshold_def)
  from r show ?thesis by (simp add: f0_3_def)
qed

lemma fmul_0_2_one: "fmul f0_2 (Finite 1) = f0_2"
proof -
  have e: "exponent ((3602879701896397 / 2 ^ 54) * 1) = - 3"
    by (rule exponent_eqI) simp_all
  have n: "round_half_even (((3602879701896397 / 2 ^ 54) * 1) / 2 powi ((- 3) - 52)) = 7205759403792794"
    by (rule rhe_eqI) simp_all
  have r: "round64 ((3602879701896397 / 2 ^ 54) * 1) = Finite (of_int (7205759403792794) * 2 powi ((- 3) - 52))"
    using e n by (rule round64_eval) (simp add: overflow_threshold_def)
  from r show ?thesis by (simp add: f0_2_def)
qed

lemma fadd_0_75_0_3: "fadd (Finite (3 / 4)) f0_3 = f1_05"
proof -
  have e: "exponent ((3 / 2 ^ 2) + (5404319552844595 / 2 ^ 54)) = 0"
    by (rule exponent_eqI) simp_all
  have n: "round_half_even (((3 / 2 ^ 2) + (5404319552844595 / 2 ^ 54)) / 2 powi (0 - 52)) = 4728779608739021"
    by (rule rhe_eqI) simp_all
  have r: "round64 ((3 / 2 ^ 2) + (5404319552844595 / 2 ^ 54)) = Finite (of_int (4728779608739021) * 2 powi (0 - 52))"
    using e n by (rule round64_eval) (simp add: overflow_threshold_def)
  from r show ?thesis by (simp add: f0_3_def f1_05_def)
qed

lemma fadd_1_05_0_2: "fadd f1_05 f0_2 = Finite (5 / 4)"
proof -
  have e: "exponent ((4728779608739021 / 2 ^ 52) + (3602879701896397 / 2 ^ 54)) = 0"
    by (rule exponent_eqI) simp_all
  have n: "round_half_even (((4728779608739021 / 2 ^ 52) + (3602879701896397 / 2 ^ 54)) / 2 powi (0 - 52)) = 5629499534213120"
    by (rule rhe_eqI) simp_all
  have r: "round64 ((4728779608739021 / 2 ^ 52) + (3602879701896397 / 2 ^ 54)) = Finite (of_int (5629499534213120) * 2 powi (0 - 52))"
    using e n by (rule round64_eval) (simp add: overflow_threshold_def)
  from r show ?thesis by (simp add: f1_05_def f0_2_def)
qed




section \<open>Lemmas on the matcher\<close>

lemma keyword_loop_filter:
  "keyword_loop topic_lower kws acc = acc @ filter (\<lambda>kw. sublist (lower kw) topic_lower) kws"
  by (induction kws arbitrary: acc) auto

lemma intent_loop_Inr:
  assumes "intent_loop re_search topic ps n = Inr k"
  shows "k = n + length (filter (\<lambda>p. re_search p topic = Inr True) ps)"
  using assms
proof (induction ps arbitrary: n)
  case Nil
  then show ?case by simp
next
  case (Cons p ps)
  show ?case
  proof (cases "re_search p topic")
    case (Inl e)
    with Cons.prems have "intent_loop re_search topic ps n = Inr k"
      by (simp split: if_splits)
    from Cons.IH [OF this] Inl show ?thesis by simp
  next
    case (Inr found)
    with Cons.prems have "intent_loop re_search topic ps (if found then n + 1 else n) = Inr k"
      by simp
    from Cons.IH [OF this] Inr show ?thesis by auto
  qed
qed



text \<open>The running maximum of the domain loop.\<close>

lemma running_max:
  assumes "d0 \<noteq> NaN"
  shows "foldl (\<lambda>d s. if fgt s d then s else d) d0 sims \<in> set (d0 # sims)
       \<and> fle d0 (foldl (\<lambda>d s. if fgt s d then s else d) d0 sims)
       \<and> list_all (\<lambda>s. \<not> fgt s (foldl (\<lambda>d s. if fgt s d then s else d) d0 sims)) sims"
  using assms
proof (induction sims arbitrary: d0)
  case Nil
  then show ?case by (simp add: fle_refl)
next
  case (Cons s sims)
  define d1 where "d1 = (if fgt s d0 then s else d0)"
  define r where "r = foldl (\<lambda>d s. if fgt s d then s else d) d1 sims"
  have n1: "d1 \<noteq> NaN"
    using Cons.prems by (cases s; cases d0) (auto simp: d1_def fgt_def)
  from Cons.IH [OF n1] have
    m: "r \<in> set (d1 # sims)" and g: "fle d1 r" and a: "list_all (\<lambda>s. \<not> fgt s r) sims"
    unfolding r_def by simp_all
  have d01: "fle d0 d1"
    using Cons.prems by (auto simp: d1_def fgt_def flt_imp_fle fle_refl)
  have s1: "\<not> flt d1 s"
    by (cases s; cases d0) (auto simp: d1_def fgt_def)
  have "\<not> flt r s"
  proof
    assume f: "flt r s"
    then have sn: "s \<noteq> NaN" by (cases r; cases s) simp_all
    from s1 n1 sn have "fle s d1" by (simp add: not_flt_iff)
    from this g have "fle s r" by (rule fle_trans)
    moreover from f have "fle r s" by (rule flt_imp_fle)
    ultimately have "s = r" by (rule fle_antisym)
    with f show False by (cases r) simp_all
  qed
  moreover have "r \<in> set (d0 # s # sims)" using m by (auto simp: d1_def split: if_splits)
  moreover have "fle d0 r" using d01 g by (rule fle_trans)
  ultimately show ?case
    using a unfolding r_def d1_def by (simp add: fgt_def)
qed

lemma domain_loop_sims:
  assumes "domain_loop dotf temb des ds md = Inr (r, md')"
  shows "\<exists>sims. map (\<lambda>de. cosine_similarity dotf temb (snd de)) des = map Inr sims
           \<and> r = foldl (\<lambda>d s. if fgt s d then s else d) ds sims
           \<and> md' = md @ map fst (filter (\<lambda>(d, sim). fgt sim f0_4) (zip (map fst des) sims))"
  using assms
proof (induction des arbitrary: ds md)
  case Nil
  then show ?case by simp
next
  case (Cons de des)
  obtain d e where de: "de = (d, e)" by (cases de)
  from Cons.prems obtain sim where sim: "cosine_similarity dotf temb e = Inr sim"
    and rest: "domain_loop dotf temb des (if fgt sim ds then sim else ds)
                 (if fgt sim f0_4 then md @ [d] else md) = Inr (r, md')"
    by (auto simp: de split: sum.splits)
  from Cons.IH [OF rest] obtain sims where
    s: "map (\<lambda>de. cosine_similarity dotf temb (snd de)) des = map Inr sims"
    and r: "r = foldl (\<lambda>d s. if fgt s d then s else d) (if fgt sim ds then sim else ds) sims"
    and m: "md' = (if fgt sim f0_4 then md @ [d] else md)
                    @ map fst (filter (\<lambda>(d, sim). fgt sim f0_4) (zip (map fst des) sims))"
    by blast
  show ?case
    by (rule exI [of _ "sim # sims"]) (use s r m sim de in auto)
qed

lemma is_domain_sim_foldl:
  "is_domain_sim (foldl (\<lambda>d s. if fgt s d then s else d) (Finite 0) sims) sims"
  using running_max [of "Finite 0" sims] by (simp add: is_domain_sim_def fge_def)

lemma is_domain_sim_Nil: "is_domain_sim d [] \<longleftrightarrow> d = Finite 0"
  by (auto simp: is_domain_sim_def fge_def)

lemma zip_snd_take: "map snd (zip xs ys) = take (length xs) ys"
  by (induct xs ys rule: list_induct2') simp_all

lemma compute_score_Inr:
  assumes "compute_score dotf embedder re_search topic temb sk = Inr (s, md, mk)"
  shows "\<exists>sims ds.
           (if domains (trigger (metadata sk)) \<noteq> []
            then (\<exists>embs. embedder (domains (trigger (metadata sk))) = Inr embs
                     \<and> map (cosine_similarity dotf temb)
                          (take (length (domains (trigger (metadata sk)))) embs) = map Inr sims)
            else sims = [])
         \<and> is_domain_sim ds sims
         \<and> s = fadd (fadd (fmul f0_5 ds)
                       (fmul f0_3 (keyword_ratio topic (trigger_keywords (trigger (metadata sk))))))
                 (fmul f0_2 (intent_ratio re_search topic (intent_patterns (trigger (metadata sk)))))
         \<and> mk = filter (\<lambda>kw. sublist (lower kw) (lower topic)) (trigger_keywords (trigger (metadata sk)))"
proof -
  define trig where "trig = trigger (metadata sk)"
  define dpart where "dpart =
    (if domains trig \<noteq> []
     then (case embedder (domains trig) of
             Inl e \<Rightarrow> Inl e
           | Inr domain_embeddings \<Rightarrow>
               domain_loop dotf temb (zip (domains trig) domain_embeddings) (Finite 0) [])
     else Inr (Finite 0, []))"
  define ipart where "ipart =
    (if intent_patterns trig \<noteq> []
     then (case intent_loop re_search topic (intent_patterns trig) 0 of
             Inl e \<Rightarrow> Inl e
           | Inr matches \<Rightarrow> Inr (truediv matches (length (intent_patterns trig))))
     else Inr (Finite 0))"
  have cs: "compute_score dotf embedder re_search topic temb sk =
    (case dpart of
       Inl e \<Rightarrow> Inl e
     | Inr (ds, md) \<Rightarrow>
         (case ipart of
            Inl e \<Rightarrow> Inl e
          | Inr intent_score \<Rightarrow>
              Inr (fadd (fadd (fmul f0_5 ds) (fmul f0_3 (keyword_ratio topic (trigger_keywords trig))))
                        (fmul f0_2 intent_score),
                   md, filter (\<lambda>kw. sublist (lower kw) (lower topic)) (trigger_keywords trig))))"
    by (simp add: compute_score_def Let_def trig_def dpart_def ipart_def keyword_ratio_def
        keyword_loop_filter split: sum.splits prod.splits)
  from assms obtain ds isc where d: "dpart = Inr (ds, md)" and i: "ipart = Inr isc"
    and s: "s = fadd (fadd (fmul f0_5 ds) (fmul f0_3 (keyword_ratio topic (trigger_keywords trig))))
                  (fmul f0_2 isc)"
    and mk: "mk = filter (\<lambda>kw. sublist (lower kw) (lower topic)) (trigger_keywords trig)"
    unfolding cs by (auto split: sum.splits prod.splits)
  have isc: "isc = intent_ratio re_search topic (intent_patterns trig)"
    using i by (auto simp: ipart_def intent_ratio_def split: if_splits sum.splits dest: intent_loop_Inr)
  have "\<exists>sims. (if domains trig \<noteq> []
            then (\<exists>embs. embedder (domains trig) = Inr embs
                     \<and> map (cosine_similarity dotf temb) (take (length (domains trig)) embs)
                          = map Inr sims)
            else sims = [])
         \<and> is_domain_sim ds sims"
  proof (cases "domains trig = []")
    case True
    with d show ?thesis by (simp add: dpart_def is_domain_sim_Nil)
  next
    case False
    with d obtain embs where e: "embedder (domains trig) = Inr embs"
      and l: "domain_loop dotf temb (zip (domains trig) embs) (Finite 0) [] = Inr (ds, md)"
      by (auto simp: dpart_def split: sum.splits)
    from domain_loop_sims [OF l] obtain sims where
      m: "map (\<lambda>de. cosine_similarity dotf temb (snd de)) (zip (domains trig) embs) = map Inr sims"
      and r: "ds = foldl (\<lambda>d s. if fgt s d then s else d) (Finite 0) sims"
      by blast
    have "map (\<lambda>de. cosine_similarity dotf temb (snd de)) (zip (domains trig) embs)
            = map (cosine_similarity dotf temb) (map snd (zip (domains trig) embs))"
      by simp
    with m have "map (cosine_similarity dotf temb) (take (length (domains trig)) embs) = map Inr sims"
      by (simp only: zip_snd_take)
    with False e r show ?thesis
      by (intro exI [of _ sims]) (simp add: is_domain_sim_foldl)
  qed
  with s mk isc show ?thesis
    unfolding trig_def by blast
qed



lemma match_loop_result:
  assumes "match_loop dotf embedder re_search topic temb sks acc = Inr ms"
  shows "\<exists>new. ms = acc @ new \<and> subseq (map skill new) sks
           \<and> (\<forall>m\<in>set new. fge (score m) (threshold (trigger (metadata (skill m))))
                 \<and> compute_score dotf embedder re_search topic temb (skill m)
                     = Inr (score m, matched_domains m, matched_keywords m))"
  using assms
proof (induction sks arbitrary: acc)
  case Nil
  then show ?case by simp
next
  case (Cons sk sks)
  from Cons.prems obtain sc md mk where
    c: "compute_score dotf embedder re_search topic temb sk = Inr (sc, md, mk)"
    and rest: "match_loop dotf embedder re_search topic temb sks
        (if fge sc (threshold (trigger (metadata sk)))
         then acc @ [\<lparr>skill = sk, score = sc, matched_domains = md, matched_keywords = mk\<rparr>]
         else acc) = Inr ms"
    by (auto split: sum.splits prod.splits)
  from Cons.IH [OF rest] obtain new where
    n: "ms = (if fge sc (threshold (trigger (metadata sk)))
         then acc @ [\<lparr>skill = sk, score = sc, matched_domains = md, matched_keywords = mk\<rparr>]
         else acc) @ new"
    and sub: "subseq (map skill new) sks"
    and all: "\<forall>m\<in>set new. fge (score m) (threshold (trigger (metadata (skill m))))
                 \<and> compute_score dotf embedder re_search topic temb (skill m)
                     = Inr (score m, matched_domains m, matched_keywords m)"
    by blast
  show ?case
  proof (cases "fge sc (threshold (trigger (metadata sk)))")
    case True
    show ?thesis
      by (rule exI [of _ "\<lparr>skill = sk, score = sc, matched_domains = md, matched_keywords = mk\<rparr> # new"])
        (use True n sub all c in auto)
  next
    case False
    show ?thesis
      by (rule exI [of _ new]) (use False n sub all in auto)
  qed
qed

lemma set_slice_to: "set (slice_to xs k) \<subseteq> set xs"
  by (auto simp: slice_to_def dest: in_set_takeD)

lemma match_Inr:
  assumes "match dotf embedder re_search top_k topic sks = Inr ms"
  shows "\<exists>temb new. ms = slice_to (sort_by_score_desc new) top_k
           \<and> subseq (map skill new) sks
           \<and> (\<forall>m\<in>set new. fge (score m) (threshold (trigger (metadata (skill m))))
                 \<and> compute_score dotf embedder re_search topic temb (skill m)
                     = Inr (score m, matched_domains m, matched_keywords m))"
proof (cases "sks = []")
  case True
  with assms have "ms = []" by (simp add: match_def)
  then have "ms = slice_to (sort_by_score_desc []) top_k"
    by (simp add: slice_to_def sort_by_score_desc_def)
  then show ?thesis by (intro exI [of _ "[]"]) simp
next
  case False
  with assms obtain temb acc where
    l: "match_loop dotf embedder re_search topic temb sks [] = Inr acc"
    and m: "ms = slice_to (sort_by_score_desc acc) top_k"
    by (auto simp: match_def split: sum.splits list.splits)
  from match_loop_result [OF l] m show ?thesis by auto
qed

lemma subseq_take: "subseq (take n xs) xs"
  by (metis append_take_drop_id list_emb_append2 subseq_order.order_refl list_emb_prefix)

lemma slice_to_nonneg: "0 \<le> k \<Longrightarrow> slice_to xs k = take (nat k) xs"
  by (simp add: slice_to_def)

text \<open>On scores that are not \<open>nan\<close> the key order is the reverse of the float order, and
  equal keys are equal scores.\<close>

lemma desc_key_le:
  assumes "a \<noteq> NaN" "b \<noteq> NaN"
  shows "desc_key a \<le> desc_key b \<longleftrightarrow> fge a b"
  using assms by (cases a; cases b) (simp_all add: fge_def)

lemma desc_key_inj: "desc_key a = desc_key b \<longleftrightarrow> a = b"
  by (cases a; cases b) simp_all

lemma sorted_desc_sort_by_score:
  assumes "\<forall>m\<in>set xs. score m \<noteq> NaN"
  shows "sorted_wrt (\<lambda>a b. fge (score a) (score b)) (sort_by_score_desc xs)"
proof -
  have "sorted (map (\<lambda>m. desc_key (score m)) (sort_key (\<lambda>m. desc_key (score m)) xs))"
    by (rule sorted_sort_key)
  then have "sorted_wrt (\<lambda>a b. desc_key (score a) \<le> desc_key (score b)) (sort_by_score_desc xs)"
    by (simp add: sort_by_score_desc_def sorted_wrt_map)
  moreover have "set (sort_by_score_desc xs) = set xs"
    by (simp add: sort_by_score_desc_def)
  ultimately show ?thesis
    using assms by (auto simp: desc_key_le elim!: sorted_wrt_mono_rel [rotated])
qed

lemma filter_score_sort_by_score:
  "filter (\<lambda>m. score m = v) (sort_by_score_desc xs) = filter (\<lambda>m. score m = v) xs"
proof -
  have "filter (\<lambda>m. desc_key (score m) = desc_key v) (sort_key (\<lambda>m. desc_key (score m)) xs)
          = filter (\<lambda>m. desc_key (score m) = desc_key v) xs"
    by (rule sort_key_stable)
  then show ?thesis by (simp add: sort_by_score_desc_def desc_key_inj)
qed

lemma set_sort_by_score: "set (sort_by_score_desc xs) = set xs"
  by (simp add: sort_by_score_desc_def)

lemma fge_not_NaN: "fge a b \<Longrightarrow> a \<noteq> NaN"
  by (auto simp: fge_def dest: fle_not_NaN)

lemma tiny_cosine: "cosine_similarity dot_seq [tiny_a] [tiny_b] = Inr (Finite (3 / 2))"
proof -
  define a2 where "a2 = Finite (2 powi (- 1072))"
  define b2 where "b2 = Finite (2 powi (- 1074))"
  define ab where "ab = Finite (3 * 2 powi (- 1074))"
  define na where "na = Finite (2 powi (- 536))"
  define nb where "nb = Finite (2 powi (- 537))"
  define den where "den = Finite (2 powi (- 1073))"
  have m1: "fmul tiny_a tiny_a = a2"
  proof -
    have e: "exponent ((67 * 2 powi (- 542)) * (67 * 2 powi (- 542))) = - 1022"
      by (rule exponent_subnormal) simp_all
    have n: "round_half_even (((67 * 2 powi (- 542)) * (67 * 2 powi (- 542))) / 2 powi ((- 1022) - 52)) = 4"
      by (rule rhe_eqI) simp_all
    have r: "round64 ((67 * 2 powi (- 542)) * (67 * 2 powi (- 542))) = Finite (of_int (4) * 2 powi ((- 1022) - 52))"
      using e n by (rule round64_eval) (simp add: overflow_threshold_def)
    from r show ?thesis by (simp add: tiny_a_def a2_def)
  qed
  have m2: "fmul tiny_b tiny_b = b2"
  proof -
    have e: "exponent ((39 * 2 powi (- 542)) * (39 * 2 powi (- 542))) = - 1022"
      by (rule exponent_subnormal) simp_all
    have n: "round_half_even (((39 * 2 powi (- 542)) * (39 * 2 powi (- 542))) / 2 powi ((- 1022) - 52)) = 1"
      by (rule rhe_eqI) simp_all
    have r: "round64 ((39 * 2 powi (- 542)) * (39 * 2 powi (- 542))) = Finite (of_int (1) * 2 powi ((- 1022) - 52))"
      using e n by (rule round64_eval) (simp add: overflow_threshold_def)
    from r show ?thesis by (simp add: tiny_b_def b2_def)
  qed
  have m3: "fmul tiny_a tiny_b = ab"
  proof -
    have e: "exponent ((67 * 2 powi (- 542)) * (39 * 2 powi (- 542))) = - 1022"
      by (rule exponent_subnormal) simp_all
    have n: "round_half_even (((67 * 2 powi (- 542)) * (39 * 2 powi (- 542))) / 2 powi ((- 1022) - 52)) = 3"
      by (rule rhe_eqI) simp_all
    have r: "round64 ((67 * 2 powi (- 542)) * (39 * 2 powi (- 542))) = Finite (of_int (3) * 2 powi ((- 1022) - 52))"
      using e n by (rule round64_eval) (simp add: overflow_threshold_def)
    from r show ?thesis by (simp add: tiny_a_def tiny_b_def ab_def)
  qed
  have z1: "fadd (Finite 0) a2 = a2"
    using round64_representable [of "2 powi (- 1072)" 1 "- 1072"]
    by (simp add: a2_def overflow_threshold_def)
  have z2: "fadd (Finite 0) b2 = b2"
    using round64_representable [of "2 powi (- 1074)" 1 "- 1074"]
    by (simp add: b2_def overflow_threshold_def)
  have z3: "fadd (Finite 0) ab = ab"
    using round64_representable [of "3 * 2 powi (- 1074)" 3 "- 1074"]
    by (simp add: ab_def overflow_threshold_def)
  have s1: "fsqrt a2 = na"
  proof -
    have q: "sqrt (2 powi (- 1072)) = 2 powi (- 536)"
      by (rule real_sqrt_unique) (simp_all add: power2_eq_square)
    have r: "round64 (2 powi (- 536)) = Finite (2 powi (- 536))"
      by (rule round64_representable [of _ 1 "- 536"]) (simp_all add: overflow_threshold_def)
    have p: "\<not> (2::real) powi (- 1072) < 0" by simp
    show ?thesis
      unfolding a2_def na_def fsqrt.simps by (simp only: p if_False q r)
  qed
  have s2: "fsqrt b2 = nb"
  proof -
    have q: "sqrt (2 powi (- 1074)) = 2 powi (- 537)"
      by (rule real_sqrt_unique) (simp_all add: power2_eq_square)
    have r: "round64 (2 powi (- 537)) = Finite (2 powi (- 537))"
      by (rule round64_representable [of _ 1 "- 537"]) (simp_all add: overflow_threshold_def)
    have p: "\<not> (2::real) powi (- 1074) < 0" by simp
    show ?thesis
      unfolding b2_def nb_def fsqrt.simps by (simp only: p if_False q r)
  qed
  have m4: "fmul na nb = den"
    using round64_representable [of "2 powi (- 1073)" 1 "- 1073"]
    by (simp add: na_def nb_def den_def overflow_threshold_def)
  have d: "fdiv ab den = Finite (3 / 2)"
    using round64_representable [of "3 / 2" 3 "- 1"]
    by (simp add: ab_def den_def overflow_threshold_def)
  have nz: "\<not> feq na (Finite 0)" "\<not> feq nb (Finite 0)"
    by (simp_all add: feq_def na_def nb_def)
  show ?thesis
    by (simp add: cosine_similarity_def linalg_norm_def np_dot_def dot_seq_def
        m1 m2 m3 z1 z2 z3 s1 s2 m4 d nz)
qed

text \<open>The weighted sum of a similarity that is not below 0 and two ratios in \<open>[0, 1]\<close>.\<close>

lemma round64_0_3: "round64 (5404319552844595 / 2 ^ 54) = Finite (5404319552844595 / 2 ^ 54)"
  by (rule round64_representable [of _ 5404319552844595 "- 54"]) (simp_all add: overflow_threshold_def)

lemma round64_0_2: "round64 (3602879701896397 / 2 ^ 54) = Finite (3602879701896397 / 2 ^ 54)"
  by (rule round64_representable [of _ 3602879701896397 "- 54"]) (simp_all add: overflow_threshold_def)

lemma round64_0_8: "round64 (1 / 2 + 5404319552844595 / 2 ^ 54) = Finite (3602879701896397 / 2 ^ 52)"
proof -
  have e: "exponent (1 / 2 + 5404319552844595 / 2 ^ 54) = - 1"
    by (rule exponent_eqI) simp_all
  have n: "round_half_even ((1 / 2 + 5404319552844595 / 2 ^ 54) / 2 powi ((- 1) - 52)) = 7205759403792793 + 1"
    by (rule rhe_tie_odd) simp_all
  have r: "round64 (1 / 2 + 5404319552844595 / 2 ^ 54) = Finite (of_int (7205759403792793 + 1) * 2 powi ((- 1) - 52))"
    using e n by (rule round64_eval) (simp add: overflow_threshold_def)
  then show ?thesis by simp
qed

lemma round64_0_8_0_2: "round64 (3602879701896397 / 2 ^ 52 + 3602879701896397 / 2 ^ 54) = Finite 1"
proof -
  have e: "exponent (3602879701896397 / 2 ^ 52 + 3602879701896397 / 2 ^ 54) = 0"
    by (rule exponent_eqI) simp_all
  have n: "round_half_even ((3602879701896397 / 2 ^ 52 + 3602879701896397 / 2 ^ 54) / 2 powi (0 - 52)) = 4503599627370496"
    by (rule rhe_eqI) simp_all
  have r: "round64 (3602879701896397 / 2 ^ 52 + 3602879701896397 / 2 ^ 54) = Finite (of_int 4503599627370496 * 2 powi (0 - 52))"
    using e n by (rule round64_eval) (simp add: overflow_threshold_def)
  then show ?thesis by simp
qed

lemma weighted_term_bounds:
  assumes "0 < c" "round64 c = Finite c" "0 \<le> k" "k \<le> 1"
  shows "\<exists>t. fmul (Finite c) (Finite k) = Finite t \<and> 0 \<le> t \<and> t \<le> c"
proof -
  have "\<exists>r. round64 (c * k) = Finite r \<and> 0 \<le> r \<and> r \<le> c"
    by (rule round64_between [of 0 _ c]) (use assms in \<open>simp_all add: mult_left_le\<close>)
  then show ?thesis by simp
qed

lemma weighted_sum_nonneg:
  assumes "fge ds (Finite 0)" "kr = Finite k" "0 \<le> k" "ir = Finite i" "0 \<le> i"
  shows "fge (fadd (fadd (fmul f0_5 ds) (fmul f0_3 kr)) (fmul f0_2 ir)) (Finite 0)"
proof -
  have 1: "fge (fmul f0_5 ds) (Finite 0)"
    unfolding f0_5_def by (rule fmul_const_nonneg) (use assms in simp_all)
  have 2: "fge (fmul f0_3 kr) (Finite 0)"
    unfolding f0_3_def by (rule fmul_const_nonneg) (use assms in \<open>simp_all add: fge_def\<close>)
  have 3: "fge (fmul f0_2 ir) (Finite 0)"
    unfolding f0_2_def by (rule fmul_const_nonneg) (use assms in \<open>simp_all add: fge_def\<close>)
  show ?thesis by (intro fadd_nonneg 1 2 3)
qed

lemma weighted_sum_le_one:
  assumes "fge ds (Finite 0)" "fle ds (Finite 1)"
    "kr = Finite k" "0 \<le> k" "k \<le> 1" "ir = Finite i" "0 \<le> i" "i \<le> 1"
  shows "fle (fadd (fadd (fmul f0_5 ds) (fmul f0_3 kr)) (fmul f0_2 ir)) (Finite 1)"
proof -
  from assms(1,2) obtain d where ds: "ds = Finite d" and d: "0 \<le> d" "d \<le> 1"
    by (cases ds) (simp_all add: fge_def)
  have p1: "(0::real) < 1 / 2" and p3: "(0::real) < 5404319552844595 / 2 ^ 54"
    and p2: "(0::real) < 3602879701896397 / 2 ^ 54"
    by simp_all
  from weighted_term_bounds [OF p1 round64_half d]
  obtain t1 where t1: "fmul f0_5 ds = Finite t1" "0 \<le> t1" "t1 \<le> 1 / 2"
    unfolding f0_5_def ds by blast
  from weighted_term_bounds [OF p3 round64_0_3 assms(4,5)]
  obtain t2 where t2: "fmul f0_3 kr = Finite t2" "0 \<le> t2" "t2 \<le> 5404319552844595 / 2 ^ 54"
    unfolding f0_3_def assms(3) by blast
  from weighted_term_bounds [OF p2 round64_0_2 assms(7,8)]
  obtain t3 where t3: "fmul f0_2 ir = Finite t3" "0 \<le> t3" "t3 \<le> 3602879701896397 / 2 ^ 54"
    unfolding f0_2_def assms(6) by blast
  have "\<exists>r. round64 (t1 + t2) = Finite r \<and> 0 \<le> r \<and> r \<le> 3602879701896397 / 2 ^ 52"
  proof (rule round64_between [OF _ _ round64_zero round64_0_8])
    show "0 \<le> t1 + t2" using t1 t2 by linarith
    show "t1 + t2 \<le> 1 / 2 + 5404319552844595 / 2 ^ 54" using t1 t2 by linarith
  qed
  then obtain s1 where s1: "round64 (t1 + t2) = Finite s1" "0 \<le> s1" "s1 \<le> 3602879701896397 / 2 ^ 52"
    by blast
  have "\<exists>r. round64 (s1 + t3) = Finite r \<and> 0 \<le> r \<and> r \<le> 1"
  proof (rule round64_between [OF _ _ round64_zero round64_0_8_0_2])
    show "0 \<le> s1 + t3" using s1 t3 by linarith
    show "s1 + t3 \<le> 3602879701896397 / 2 ^ 52 + 3602879701896397 / 2 ^ 54" using s1 t3 by linarith
  qed
  then obtain s where s: "round64 (s1 + t3) = Finite s" "s \<le> 1" by blast
  have "fadd (fadd (fmul f0_5 ds) (fmul f0_3 kr)) (fmul f0_2 ir) = Finite s"
    by (simp only: t1 t2 t3 fadd.simps s1 s)
  with s(2) show ?thesis by simp
qed

lemma keyword_ratio_bounds:
  "\<exists>k. keyword_ratio topic kws = Finite k \<and> 0 \<le> k \<and> k \<le> 1"
proof (cases "kws = []")
  case True
  then show ?thesis by (simp add: keyword_ratio_def)
next
  case False
  then show ?thesis
    unfolding keyword_ratio_def by (simp add: truediv_bounds)
qed

lemma intent_ratio_bounds:
  "\<exists>i. intent_ratio re_search topic ps = Finite i \<and> 0 \<le> i \<and> i \<le> 1"
proof (cases "ps = []")
  case True
  then show ?thesis by (simp add: intent_ratio_def)
next
  case False
  then show ?thesis
    unfolding intent_ratio_def by (simp add: truediv_bounds)
qed

lemma is_domain_sim_nonneg: "is_domain_sim ds sims \<Longrightarrow> fge ds (Finite 0)"
  by (simp add: is_domain_sim_def)

lemma is_domain_sim_all_negative:
  assumes "is_domain_sim ds sims" "list_all (\<lambda>s. \<not> fgt s (Finite 0)) sims"
  shows "ds = Finite 0"
proof (rule ccontr)
  assume n: "ds \<noteq> Finite 0"
  with assms(1) have "ds \<in> set sims" "fge ds (Finite 0)" by (auto simp: is_domain_sim_def)
  with assms(2) have "\<not> fgt ds (Finite 0)" by (auto simp: list_all_iff)
  with \<open>fge ds (Finite 0)\<close> n show False
    by (cases ds) (auto simp: fge_def fgt_def)
qed

lemma is_domain_sim_le_one:
  assumes "is_domain_sim ds sims" "list_all (\<lambda>s. \<not> fgt s (Finite 1)) sims"
  shows "fle ds (Finite 1)"
proof -
  from assms(1) consider "ds = Finite 0" | "ds \<in> set sims" "fge ds (Finite 0)"
    by (auto simp: is_domain_sim_def)
  then show ?thesis
  proof cases
    case 1
    then show ?thesis by simp
  next
    case 2
    with assms(2) have "\<not> fgt ds (Finite 1)" by (auto simp: list_all_iff)
    with 2(2) show ?thesis by (cases ds) (auto simp: fge_def fgt_def)
  qed
qed

section \<open>Lemmas on cosine similarity\<close>












lemma cosine_three_four:
  "cosine_similarity dot_seq [Finite 3, Finite 4] [Finite 3, Finite 4] = Inr (Finite 1)"
proof -
  have "sqrt 25 = 5" by (rule real_sqrt_unique) simp_all
  then show ?thesis
    by (simp add: cosine_similarity_def np_dot_def linalg_norm_def dot_seq_def feq_def)
qed

lemma example_cosine:
  "cosine_similarity dot_seq [Finite 1, Finite 0] [Finite 1, Finite 0] = Inr (Finite 1)"
  by (simp add: cosine_similarity_def np_dot_def linalg_norm_def dot_seq_def feq_def)

lemma example_cosine_orthogonal:
  "cosine_similarity dot_seq [Finite 1, Finite 0] [Finite 0, Finite 1] = Inr (Finite 0)"
  by (simp add: cosine_similarity_def np_dot_def linalg_norm_def dot_seq_def feq_def)

text \<open>The sample scores and matches.\<close>

lemma example_sublists:
  "sublist (lower ''test'') (lower ''please test and verify this'')"
  "sublist (lower ''verify'') (lower ''please test and verify this'')"
  "\<not> sublist (lower ''validate'') (lower ''please test and verify this'')"
  "\<not> sublist (lower ''check'') (lower ''please test and verify this'')"
  "sublist ''test'' ''please test and verify this''"
  "sublist (lower ''test'') (lower ''test'')"
  "sublist ''test'' ''test''"
  by code_simp+

lemma example_comparisons:
  "fgt (Finite 1) (Finite 0)" "fgt (Finite 1) f0_4"
  "fgt (Finite (3 / 2)) (Finite 0)" "fgt (Finite (3 / 2)) f0_4"
  "fge (Finite (3 / 4)) f0_4" "fge (Finite (3 / 4)) f0_1"
  "fge (Finite (1 / 4)) (Finite 0)" "\<not> fge (Finite (1 / 4)) f0_9"
  "fge (Finite (5 / 4)) f0_6" "\<not> fle (Finite (5 / 4)) (Finite 1)"
  by (simp_all add: fgt_def fge_def f0_4_def f0_1_def f0_9_def f0_6_def)

lemma example_truediv:
  "truediv (Suc (Suc 0)) (Suc (Suc (Suc (Suc 0)))) = Finite (1 / 2)"
  "truediv (Suc 0) (Suc (Suc 0)) = Finite (1 / 2)"
  "truediv (Suc 0) (Suc 0) = Finite 1"
  by (simp_all add: truediv_def)

lemma tiny_threshold: "threshold (trigger (metadata tiny_skill)) = f0_6"
  by (simp add: tiny_skill_def sample_skill_def)

lemma example_score_with_domains:
  "compute_score dot_seq example_embedder example_re_search ''please test and verify this''
     [Finite 1, Finite 0] (example_skill n [''testing''] thr)
   = Inr (Finite (3 / 4), [''testing''], [''test'', ''verify''])"
  by (simp add: compute_score_def example_skill_def sample_skill_def example_embedder_def
      example_re_search_def example_cosine example_sublists example_comparisons example_truediv
      fmul_0_5_one fmul_0_3_half fmul_0_2_half fadd_0_5_0_15 fadd_0_65_0_1)

lemma example_score_no_domains:
  "compute_score dot_seq example_embedder example_re_search ''please test and verify this''
     [Finite 1, Finite 0] (example_skill n [] thr)
   = Inr (Finite (1 / 4), [], [''test'', ''verify''])"
  by (simp add: compute_score_def example_skill_def sample_skill_def example_embedder_def
      example_re_search_def example_sublists example_truediv
      fmul_0_5_zero fmul_0_3_half fmul_0_2_half fadd_zero_0_15 fadd_0_15_0_1)

lemma example_threshold: "threshold (trigger (metadata (example_skill n ds thr))) = thr"
  by (simp add: example_skill_def sample_skill_def)

lemma example_match:
  "match dot_seq example_embedder example_re_search 2 ''please test and verify this'' example_skills
     = Inr example_matches"
  by (simp add: match_def example_skills_def example_matches_def example_embedder_def [of "[_]"]
      example_score_with_domains example_score_no_domains example_threshold example_comparisons
      sort_by_score_desc_def slice_to_def)


lemma tiny_score:
  "compute_score dot_seq tiny_embedder example_re_search ''test'' [tiny_a] tiny_skill
     = Inr (Finite (5 / 4), [''tiny''], [''test''])"
  by (simp add: compute_score_def tiny_skill_def sample_skill_def tiny_embedder_def
      example_re_search_def tiny_cosine example_sublists example_comparisons example_truediv
      fmul_0_5_three_halves fmul_0_3_one fmul_0_2_one fadd_0_75_0_3 fadd_1_05_0_2)

lemma tiny_match:
  "match dot_seq tiny_embedder example_re_search 3 ''test'' [tiny_skill]
     = Inr [\<lparr>skill = tiny_skill, score = Finite (5 / 4), matched_domains = [''tiny''],
              matched_keywords = [''test'']\<rparr>]"
  by (simp add: match_def tiny_embedder_def [of "[''test'']"] tiny_score example_comparisons
      sort_by_score_desc_def slice_to_def tiny_threshold)

section \<open>Lemmas on the Retrieve stage\<close>










section \<open>Claims on the structured-text extractor\<close>

text \<open>
  C10: for every input string, the output of \<open>_extract_json\<close> is a contiguous region of
  the input: the input is some text, then the output, then some text.
\<close>

theorem extract_json_contiguous: "\<exists>before after. t = before @ extract_json t @ after"
  using extract_json_sublist [of t] by (simp add: sublist_def)

text \<open>
  C8, as stated, fails: a fenced text whose body has no bracket pair and starts with a
  space comes back with the space, and a second run removes it.
\<close>

theorem extract_json_not_idempotent:
  "extract_json (extract_json (''```'' @ [nl] @ '' x'' @ [nl] @ ''```''))
     \<noteq> extract_json (''```'' @ [nl] @ '' x'' @ [nl] @ ''```'')"
  by code_simp

text \<open>
  C8, amended: a second run of \<open>_extract_json\<close> returns its input (the output of the
  first run) unchanged exactly when that output has no whitespace at either end and does
  not start with the fence marker; this is so whenever the output starts with \<open>[\<close> and
  ends with \<open>]\<close>.  A text made of an opening fence line, a body and a closing fence
  line has both fence lines removed before the brackets are searched, so brackets on the
  fence line play no part.
\<close>

theorem extract_json_idempotent_iff:
  "(extract_json (extract_json t) = extract_json t \<longleftrightarrow>
      strip (extract_json t) = extract_json t \<and> \<not> startswith fence (extract_json t))
   \<and> (extract_json t \<noteq> [] \<and> hd (extract_json t) = CHR ''['' \<and> last (extract_json t) = CHR '']''
        \<longrightarrow> extract_json (extract_json t) = extract_json t)
   \<and> (nl \<notin> set info
        \<longrightarrow> extract_json (fence @ info @ nl # body @ nl # fence) = select_brackets body)"
proof (intro conjI impI)
  show "extract_json (extract_json t) = extract_json t \<longleftrightarrow>
      strip (extract_json t) = extract_json t \<and> \<not> startswith fence (extract_json t)"
    by (rule extract_json_twice)
next
  assume a: "extract_json t \<noteq> [] \<and> hd (extract_json t) = CHR ''['' \<and> last (extract_json t) = CHR '']''"
  then have "strip (extract_json t) = extract_json t"
    by (intro strip_id) (simp_all add: is_space_def)
  moreover have "\<not> startswith fence (extract_json t)"
    using a by (cases "extract_json t") (auto simp: startswith_def fence_def)
  ultimately show "extract_json (extract_json t) = extract_json t"
    using extract_json_twice by blast
next
  assume "nl \<notin> set info"
  then show "extract_json (fence @ info @ nl # body @ nl # fence) = select_brackets body"
    by (rule extract_json_fenced)
qed

theorem extract_json_idempotent_iff_witness:
  "extract_json (extract_json ''see [1, 2] here'') = extract_json ''see [1, 2] here''
   \<and> extract_json ''see [1, 2] here'' = ''[1, 2]''
   \<and> extract_json (fence @ ''[json]'' @ nl # ''a [7] b'' @ nl # fence) = ''[7]''"
proof -
  have e: "extract_json ''see [1, 2] here'' = ''[1, 2]''" by code_simp
  have n: "nl \<notin> set ''[json]''" by (simp add: nl_def)
  have s: "select_brackets ''a [7] b'' = ''[7]''" by code_simp
  show ?thesis
    using extract_json_idempotent_iff [of "''see [1, 2] here''" "''[json]''" "''a [7] b''"] e n s
    by simp
qed

section \<open>Claims on the matcher\<close>

text \<open>
  C1: when \<open>match\<close> returns and the configured \<open>top_k\<close> is not negative, the list has at
  most \<open>top_k\<close> matches, each match has a score of at least the threshold of its own
  skill, the scores descend along the list, and for every score the skills of the matches
  with that score come in the order in which they stand in the input list.  This holds
  for every dot-product reduction, embedding service and regular-expression outcome.
\<close>

theorem match_top_k_threshold_sorted_stable:
  assumes "match dotf embedder re_search top_k topic sks = Inr ms" and "0 \<le> top_k"
  shows "int (length ms) \<le> top_k
       \<and> (\<forall>m\<in>set ms. fge (score m) (threshold (trigger (metadata (skill m)))))
       \<and> sorted_wrt (\<lambda>a b. fge (score a) (score b)) ms
       \<and> (\<forall>v. subseq (map skill (filter (\<lambda>m. score m = v) ms)) sks)"
proof -
  from match_Inr [OF assms(1)] obtain te new where
    ms0: "ms = slice_to (sort_by_score_desc new) top_k"
    and sub: "subseq (map skill new) sks"
    and all: "\<forall>m\<in>set new. fge (score m) (threshold (trigger (metadata (skill m))))
                 \<and> compute_score dotf embedder re_search topic te (skill m)
                     = Inr (score m, matched_domains m, matched_keywords m)"
    by blast
  have ms: "ms = take (nat top_k) (sort_by_score_desc new)"
    using assms(2) by (simp add: ms0 slice_to_nonneg)
  have len: "int (length ms) \<le> top_k"
    using assms(2) by (simp add: ms)
  have thr: "\<forall>m\<in>set ms. fge (score m) (threshold (trigger (metadata (skill m))))"
  proof
    fix m assume "m \<in> set ms"
    then have "m \<in> set new"
      by (auto simp: ms set_sort_by_score dest: in_set_takeD)
    with all show "fge (score m) (threshold (trigger (metadata (skill m))))" by blast
  qed
  have "\<forall>m\<in>set new. score m \<noteq> NaN"
    using all by (blast dest: fge_not_NaN)
  then have "sorted_wrt (\<lambda>a b. fge (score a) (score b)) (sort_by_score_desc new)"
    by (rule sorted_desc_sort_by_score)
  then have srt: "sorted_wrt (\<lambda>a b. fge (score a) (score b)) ms"
    unfolding ms by (rule sorted_wrt_take)
  have stab: "subseq (map skill (filter (\<lambda>m. score m = v) ms)) sks" for v
  proof -
    have "subseq (filter (\<lambda>m. score m = v) ms) (filter (\<lambda>m. score m = v) (sort_by_score_desc new))"
      unfolding ms by (rule subseq_filter [OF subseq_take])
    then have "subseq (filter (\<lambda>m. score m = v) ms) (filter (\<lambda>m. score m = v) new)"
      by (simp only: filter_score_sort_by_score)
    moreover have "subseq (filter (\<lambda>m. score m = v) new) new" by simp
    ultimately have "subseq (filter (\<lambda>m. score m = v) ms) new"
      by (rule subseq_order.order_trans)
    then have "subseq (map skill (filter (\<lambda>m. score m = v) ms)) (map skill new)"
      by (rule subseq_map)
    then show ?thesis using sub by (rule subseq_order.order_trans)
  qed
  from len thr srt stab show ?thesis by blast
qed

theorem match_top_k_threshold_sorted_stable_witness:
  "match dot_seq example_embedder example_re_search 2 ''please test and verify this'' example_skills
     = Inr example_matches
   \<and> int (length example_matches) \<le> 2
   \<and> list_all (\<lambda>m. fge (score m) (threshold (trigger (metadata (skill m))))) example_matches
   \<and> sorted_wrt (\<lambda>a b. fge (score a) (score b)) example_matches
   \<and> (\<forall>v. subseq (map skill (filter (\<lambda>m. score m = v) example_matches)) example_skills)"
proof -
  have z: "(0 :: int) \<le> 2" by simp
  show ?thesis
    unfolding list_all_iff
    by (rule conjI [OF example_match
          match_top_k_threshold_sorted_stable [OF example_match z]])
qed








text \<open>
  C9, as first stated, with every score in \<open>[0, 1]\<close>: the cosine similarity is not
  clamped, and rounding can take it above 1.  For a topic embedding \<open>[67 * 2 powi (- 542)]\<close>
  and a domain embedding \<open>[39 * 2 powi (- 542)]\<close> the squares and the product round to
  4, 1 and 3 times the smallest positive float, the norms are exact square roots, and the
  similarity is 1.5; with the one keyword and the one pattern matching, the match has the
  score 1.25.  Each vector has one entry, so that no sum is involved.
\<close>

theorem score_above_one:
  "match dot_seq tiny_embedder example_re_search 3 ''test'' [tiny_skill]
     = Inr [\<lparr>skill = tiny_skill, score = Finite (5 / 4), matched_domains = [''tiny''],
              matched_keywords = [''test'']\<rparr>]
   \<and> \<not> fle (Finite (5 / 4)) (Finite 1)"
  by (simp add: tiny_match)

text \<open>
  C9, amended: the score of every \<open>SkillMatch\<close> that \<open>match\<close> returns is not \<open>nan\<close> and
  is at least 0.  It is the weighted sum of a domain similarity that is never below 0,
  and is 0 when no cosine similarity is above 0, and of two ratios that lie in
  \<open>[0, 1]\<close>; and it is at most 1 whenever no cosine similarity of the skill's domains is
  above 1.
\<close>

theorem score_nonneg_and_bounded:
  assumes "match dotf embedder re_search top_k topic sks = Inr ms" and "m \<in> set ms"
  shows "\<exists>sims ds k i.
           is_domain_sim ds sims \<and> fge ds (Finite 0)
         \<and> (list_all (\<lambda>s. \<not> fgt s (Finite 0)) sims \<longrightarrow> ds = Finite 0)
         \<and> keyword_ratio topic (trigger_keywords (trigger (metadata (skill m)))) = Finite k
         \<and> 0 \<le> k \<and> k \<le> 1
         \<and> intent_ratio re_search topic (intent_patterns (trigger (metadata (skill m)))) = Finite i
         \<and> 0 \<le> i \<and> i \<le> 1
         \<and> score m = fadd (fadd (fmul f0_5 ds) (fmul f0_3 (Finite k))) (fmul f0_2 (Finite i))
         \<and> score m \<noteq> NaN \<and> fge (score m) (Finite 0)
         \<and> (fle ds (Finite 1) \<longrightarrow> fle (score m) (Finite 1))
         \<and> (\<exists>temb embs. embedder [topic] = Inr (temb # embs)
               \<and> (if domains (trigger (metadata (skill m))) \<noteq> []
                   then (\<exists>embs. embedder (domains (trigger (metadata (skill m)))) = Inr embs
                           \<and> map (cosine_similarity dotf temb)
                                (take (length (domains (trigger (metadata (skill m))))) embs)
                              = map Inr sims)
                   else sims = []))
         \<and> (list_all (\<lambda>s. \<not> fgt s (Finite 1)) sims \<longrightarrow> fle (score m) (Finite 1))"
proof -
  from assms have ne: "sks \<noteq> []" by (auto simp: match_def)
  with assms(1) obtain temb embs acc where
    te: "embedder [topic] = Inr (temb # embs)"
    and l: "match_loop dotf embedder re_search topic temb sks [] = Inr acc"
    and ms: "ms = slice_to (sort_by_score_desc acc) top_k"
    by (auto simp: match_def split: sum.splits list.splits)
  from assms(2) have "m \<in> set acc"
    using set_slice_to [of "sort_by_score_desc acc" top_k] by (auto simp: ms set_sort_by_score)
  with match_loop_result [OF l] have
    c: "compute_score dotf embedder re_search topic temb (skill m)
          = Inr (score m, matched_domains m, matched_keywords m)"
    by auto
  from compute_score_Inr [OF c] obtain sims ds where
    d: "if domains (trigger (metadata (skill m))) \<noteq> []
        then (\<exists>embs. embedder (domains (trigger (metadata (skill m)))) = Inr embs
                \<and> map (cosine_similarity dotf temb)
                     (take (length (domains (trigger (metadata (skill m))))) embs) = map Inr sims)
        else sims = []"
    and i: "is_domain_sim ds sims"
    and s: "score m = fadd (fadd (fmul f0_5 ds)
                      (fmul f0_3 (keyword_ratio topic (trigger_keywords (trigger (metadata (skill m)))))))
                (fmul f0_2 (intent_ratio re_search topic (intent_patterns (trigger (metadata (skill m))))))"
    by blast
  obtain k where k: "keyword_ratio topic (trigger_keywords (trigger (metadata (skill m)))) = Finite k"
    "0 \<le> k" "k \<le> 1"
    using keyword_ratio_bounds by blast
  obtain j where j: "intent_ratio re_search topic (intent_patterns (trigger (metadata (skill m)))) = Finite j"
    "0 \<le> j" "j \<le> 1"
    using intent_ratio_bounds by blast
  note g = is_domain_sim_nonneg [OF i]
  have s': "score m = fadd (fadd (fmul f0_5 ds) (fmul f0_3 (Finite k))) (fmul f0_2 (Finite j))"
    using s by (simp only: k j)
  have nn: "fge (score m) (Finite 0)"
    unfolding s' by (rule weighted_sum_nonneg [OF g refl k(2) refl j(2)])
  then have nan: "score m \<noteq> NaN" by (rule fge_not_NaN)
  have up: "fle ds (Finite 1) \<longrightarrow> fle (score m) (Finite 1)"
    unfolding s' using weighted_sum_le_one [OF g _ refl k(2,3) refl j(2,3)] by blast
  have z: "list_all (\<lambda>s. \<not> fgt s (Finite 0)) sims \<longrightarrow> ds = Finite 0"
    using is_domain_sim_all_negative [OF i] by blast
  have up2: "list_all (\<lambda>s. \<not> fgt s (Finite 1)) sims \<longrightarrow> fle (score m) (Finite 1)"
    using is_domain_sim_le_one [OF i] up by blast
  from te d have e: "\<exists>temb embs. embedder [topic] = Inr (temb # embs)
               \<and> (if domains (trigger (metadata (skill m))) \<noteq> []
                   then (\<exists>embs. embedder (domains (trigger (metadata (skill m)))) = Inr embs
                           \<and> map (cosine_similarity dotf temb)
                                (take (length (domains (trigger (metadata (skill m))))) embs)
                              = map Inr sims)
                   else sims = [])"
    by blast
  show ?thesis
    by (rule exI [of _ sims], rule exI [of _ ds], rule exI [of _ k], rule exI [of _ j])
      (intro conjI i g z k j s' nan nn up e up2)
qed


theorem score_nonneg_and_bounded_witness:
  "match dot_seq example_embedder example_re_search 2 ''please test and verify this'' example_skills
     = Inr example_matches
   \<and> hd example_matches \<in> set example_matches
   \<and> score (hd example_matches) = Finite (3 / 4)
   \<and> score (hd example_matches) \<noteq> NaN
   \<and> fge (score (hd example_matches)) (Finite 0)
   \<and> fle (score (hd example_matches)) (Finite 1)"
proof -
  let ?m = "hd example_matches"
  have mem: "?m \<in> set example_matches" by (simp add: example_matches_def)
  have sc: "score ?m = Finite (3 / 4)" by (simp add: example_matches_def)
  have dm: "domains (trigger (metadata (skill ?m))) = [''testing'']"
    by (simp add: example_matches_def example_skill_def sample_skill_def)
  from score_nonneg_and_bounded [OF example_match mem] obtain sims where
    n: "score ?m \<noteq> NaN" and g: "fge (score ?m) (Finite 0)"
    and e: "\<exists>temb embs. example_embedder [''please test and verify this''] = Inr (temb # embs)
               \<and> (\<exists>embs. example_embedder [''testing''] = Inr embs
                     \<and> map (cosine_similarity dot_seq temb) (take (Suc 0) embs) = map Inr sims)"
    and u: "list_all (\<lambda>s. \<not> fgt s (Finite 1)) sims \<longrightarrow> fle (score ?m) (Finite 1)"
    unfolding dm by auto
  from e have "map (cosine_similarity dot_seq [Finite 1, Finite 0]) [[Finite 1, Finite 0]]
                 = map Inr sims"
    by (auto simp: example_embedder_def)
  then have "sims = [Finite 1]"
    by (auto simp: example_cosine)
  with u have "fle (score ?m) (Finite 1)" by (simp add: fgt_def)
  with example_match mem sc n g show ?thesis by (intro conjI)
qed

section \<open>Claims on the Retrieve stage\<close>



end
